theory Spec2Isabelle
  imports Complex_Main "HOL-Library.Multiset"
begin

section \<open>Data model (types.ts)\<close>

datatype TaskState = Pending | Done | InProgress | Blocked

datatype ItemType = Heading | Task

datatype AggregatedStatus = AggDone | AggPartial | AggPending

text \<open>
  A \<open>HierarchyItem\<close> object is its scalar fields together with its \<open>children\<close>
  array. The optional fields \<open>state\<close>, \<open>aggregatedStatus\<close> and
  \<open>hasTaskDescendants\<close> are \<open>None\<close> while the property is absent from the object.
  The fields \<open>id\<close>, \<open>type\<close> and \<open>text\<close> carry the prefix \<open>item_\<close>.
\<close>

record ItemFields =
  item_id :: string
  item_type :: ItemType
  item_text :: string
  state :: "TaskState option"
  aggregatedStatus :: "AggregatedStatus option"
  line :: nat
  level :: int
  hasTaskDescendants :: "bool option"

datatype HierarchyItem = HierarchyItem (props: ItemFields) (children: "HierarchyItem list")

record StateCount =
  n_pending :: nat
  n_done :: nat
  n_inProgress :: nat
  n_blocked :: nat

record ParsedPlan =
  title :: string
  subtitle :: string
  filePath :: string
  tasks :: "HierarchyItem list"
  totalCount :: nat
  stateCount :: StateCount

record CacheEntry =
  mtime :: real
  parsed :: ParsedPlan

section \<open>Plan cache (planCache.ts)\<close>

text \<open>
  \<open>fs.stat(path)\<close> either rejects (\<open>Inl\<close>, carrying the rendered error) or yields the
  file's \<open>mtimeMs\<close> (\<open>Inr\<close>). The cache object holds the \<open>Map\<close> and the output channel,
  whose appended lines are kept as a list. Both methods await \<open>fs.stat\<close> inside a
  \<open>try\<close> block, so a rejection is the \<open>Inl\<close> branch and runs the \<open>catch\<close> handler.
  Modification times are finite numbers, on which \<open>===\<close> is equality.
\<close>

type_synonym FileSystem = "string \<Rightarrow> string + real"

record PlanCache =
  cache :: "string \<rightharpoonup> CacheEntry"
  outputChannel :: "string list"

definition appendLine :: "string \<Rightarrow> PlanCache \<Rightarrow> PlanCache" where
  "appendLine msg this = this\<lparr>outputChannel := outputChannel this @ [msg]\<rparr>"

definition PlanCache_get :: "FileSystem \<Rightarrow> PlanCache \<Rightarrow> string \<Rightarrow> ParsedPlan option \<times> PlanCache" where
  "PlanCache_get fs this path =
     (case fs path of
        Inr mtimeMs \<Rightarrow>
          (case cache this path of
             Some cached \<Rightarrow>
               if mtime cached = mtimeMs
               then (Some (parsed cached), appendLine (''Cache hit: '' @ path) this)
               else (None, appendLine (''Cache miss: '' @ path) this)
           | None \<Rightarrow> (None, appendLine (''Cache miss: '' @ path) this))
      | Inl error \<Rightarrow>
          (None, appendLine (''Cache get error for '' @ path @ '': '' @ error) this))"

definition PlanCache_set :: "FileSystem \<Rightarrow> PlanCache \<Rightarrow> string \<Rightarrow> ParsedPlan \<Rightarrow> PlanCache" where
  "PlanCache_set fs this path plan =
     (case fs path of
        Inr mtimeMs \<Rightarrow>
          appendLine (''Cache updated: '' @ path)
            (this\<lparr>cache := (cache this)(path \<mapsto> \<lparr>mtime = mtimeMs, parsed = plan\<rparr>)\<rparr>)
      | Inl error \<Rightarrow>
          appendLine (''Cache set warning for '' @ path @ '': '' @ error) this)"

definition invalidate :: "PlanCache \<Rightarrow> string \<Rightarrow> PlanCache" where
  "invalidate this path =
     (case cache this path of
        Some _ \<Rightarrow> appendLine (''Cache invalidated: '' @ path) (this\<lparr>cache := (cache this)(path := None)\<rparr>)
      | None \<Rightarrow> this)"

definition clear :: "PlanCache \<Rightarrow> PlanCache" where
  "clear this = appendLine ''Cache cleared'' (this\<lparr>cache := Map.empty\<rparr>)"

section \<open>Hierarchy builder (planParser.ts, buildHierarchy)\<close>

text \<open>
  \<open>buildHierarchy\<close> works by mutation of shared arrays: a stack frame holds a reference
  to the \<open>children\<close> array of an item that already sits in its parent's array, and later
  pushes through that reference change the item seen from the root. The model therefore
  keeps an explicit store. The item at position \<open>k\<close> of \<open>flatItems\<close> is the object with
  address \<open>k\<close> (\<open>parsePlan\<close> allocates every item freshly, with an empty \<open>children\<close>
  array); an array holds addresses; \<open>RootArray\<close> is the local \<open>root\<close> and
  \<open>ChildrenOf k\<close> is the \<open>children\<close> array of item \<open>k\<close>.

  The sentinel frame \<open>{level: 0, children: root}\<close> is never popped (the loop guard
  \<open>stack.length > 1\<close>) and its level is never read, so \<open>stack\<close> lists only the frames
  above it, the top of the stack first. A frame \<open>(level, k)\<close> stands for
  \<open>{level, children: item\<^sub>k.children}\<close>.
\<close>

type_synonym FlatItem = "HierarchyItem \<times> int"

datatype ArrayRef = RootArray | ChildrenOf nat

record BuildState =
  arrays :: "ArrayRef \<Rightarrow> nat list"
  stack :: "(int \<times> nat) list"

text \<open>The \<open>while\<close> loop: pop frames whose level is at least the incoming level.\<close>

fun popFrames :: "int \<Rightarrow> (int \<times> nat) list \<Rightarrow> (int \<times> nat) list" where
  "popFrames lvl [] = []"
| "popFrames lvl (f # fs) = (if fst f \<ge> lvl then popFrames lvl fs else f # fs)"

text \<open>\<open>stack[stack.length - 1].children\<close>: the sentinel's array when no frame is above it.\<close>

definition topArray :: "(int \<times> nat) list \<Rightarrow> ArrayRef" where
  "topArray fs = (case fs of [] \<Rightarrow> RootArray | (_, p) # _ \<Rightarrow> ChildrenOf p)"

text \<open>The body of \<open>flatItems.forEach\<close> for the item at address \<open>k\<close> with level \<open>lvl\<close>.\<close>

definition pushItem :: "nat \<Rightarrow> int \<Rightarrow> BuildState \<Rightarrow> BuildState" where
  "pushItem k lvl s =
     (let stack' = popFrames lvl (stack s);
          parent = topArray stack'
      in \<lparr>arrays = (arrays s)(parent := arrays s parent @ [k]),
          stack = (lvl, k) # stack'\<rparr>)"

text \<open>The state after the first \<open>m\<close> items.\<close>

definition buildLoop :: "FlatItem list \<Rightarrow> nat \<Rightarrow> BuildState" where
  "buildLoop flatItems m =
     fold (\<lambda>k. pushItem k (snd (flatItems ! k))) [0..<m] \<lparr>arrays = (\<lambda>_. []), stack = []\<rparr>"

text \<open>
  The result is the store of arrays after the whole list; \<open>buildHierarchy flatItems RootArray\<close>
  is the returned \<open>root\<close>.
\<close>

definition buildHierarchy :: "FlatItem list \<Rightarrow> ArrayRef \<Rightarrow> nat list" where
  "buildHierarchy flatItems = arrays (buildLoop flatItems (length flatItems))"

subsection \<open>The parent the specification asks for\<close>

text \<open>
  \<open>nearestSmaller flatItems k\<close> is the nearest position before \<open>k\<close> whose level is strictly
  smaller than the level at \<open>k\<close>, found by searching backwards from \<open>k - 1\<close>; \<open>None\<close> when
  no earlier item has a smaller level.
\<close>

fun searchBack :: "FlatItem list \<Rightarrow> int \<Rightarrow> nat \<Rightarrow> nat option" where
  "searchBack flatItems lvl 0 = None"
| "searchBack flatItems lvl (Suc j) =
     (if snd (flatItems ! j) < lvl then Some j else searchBack flatItems lvl j)"

definition nearestSmaller :: "FlatItem list \<Rightarrow> nat \<Rightarrow> nat option" where
  "nearestSmaller flatItems k = searchBack flatItems (snd (flatItems ! k)) k"

definition parentArray :: "FlatItem list \<Rightarrow> nat \<Rightarrow> ArrayRef" where
  "parentArray flatItems k =
     (case nearestSmaller flatItems k of None \<Rightarrow> RootArray | Some p \<Rightarrow> ChildrenOf p)"

text \<open>
  The stack invariant: every frame carries the level of its item, and the frame below it
  is the item's parent (the root array below the last frame).
\<close>

fun chain :: "FlatItem list \<Rightarrow> (int \<times> nat) list \<Rightarrow> bool" where
  "chain fl [] = True"
| "chain fl ((l, a) # rest) =
     (l = snd (fl ! a) \<and> parentArray fl a = topArray rest \<and> chain fl rest)"

definition above :: "(int \<times> nat) list \<Rightarrow> nat" where
  "above fs = (case fs of [] \<Rightarrow> 0 | (_, a) # _ \<Rightarrow> Suc a)"

section \<open>Checklist extractor (planParser.ts, parsePlan, the token loop)\<close>

subsection \<open>Tokens of the markdown tokenizer\<close>

text \<open>
  The tokenizer (markdown-it with the task-lists plugin) is an external collaborator: the
  model takes its output as given. A token carries the properties the parser reads:
  \<open>type\<close>, \<open>tag\<close>, \<open>content\<close>, \<open>map\<close> (\<open>null\<close> or the pair of source lines),
  \<open>attrs\<close> (\<open>null\<close> or the list of name/value pairs) and \<open>children\<close> (\<open>null\<close> or the
  inline child tokens, of which only \<open>type\<close> and \<open>content\<close> are read).
\<close>

record InlineChild =
  child_type :: string
  child_content :: string

record Token =
  tok_type :: string
  tok_tag :: string
  tok_content :: string
  tok_map :: "(nat \<times> nat) option"
  tok_attrs :: "(string \<times> string) list option"
  tok_children :: "InlineChild list option"

subsection \<open>Strings\<close>

text \<open>
  A string is the list of its code units, and the model covers the code units below 256.
  Among them the white space that \<open>trim\<close> and the regular expression class \<open>\s\<close> remove is
  tab, line feed, vertical tab, form feed, carriage return, space and no-break space.
\<close>

definition isWhiteSpace :: "char \<Rightarrow> bool" where
  "isWhiteSpace c =
     (c = CHR 0x09 \<or> c = CHR 0x0A \<or> c = CHR 0x0B \<or> c = CHR 0x0C \<or> c = CHR 0x0D \<or>
      c = CHR 0x20 \<or> c = CHR 0xA0)"

definition trim :: "string \<Rightarrow> string" where
  "trim s = rev (dropWhile isWhiteSpace (rev (dropWhile isWhiteSpace s)))"

text \<open>
  \<open>startsWith s p\<close> is a match of the anchored literal pattern \<open>/^p/\<close>;
  \<open>includes_str s sub\<close> is \<open>s.includes(sub)\<close>.
\<close>

fun startsWith :: "string \<Rightarrow> string \<Rightarrow> bool" where
  "startsWith s [] = True"
| "startsWith [] (p # ps) = False"
| "startsWith (c # cs) (p # ps) = (c = p \<and> startsWith cs ps)"

fun includes_str :: "string \<Rightarrow> string \<Rightarrow> bool" where
  "includes_str [] sub = (sub = [])"
| "includes_str (c # cs) sub = (startsWith (c # cs) sub \<or> includes_str cs sub)"

text \<open>
  \<open>parseInt(str)\<close> with no radix: leading white space is skipped, a sign is read, a prefix
  \<open>0x\<close> or \<open>0X\<close> selects radix 16, and the longest run of digits of the radix is the
  value; \<open>NaN\<close> (here \<open>None\<close>) when that run is empty. The value is exact, which is what
  JavaScript computes for every integer below \<open>2\<^sup>5\<^sup>3\<close>.
\<close>

definition digitValue :: "char \<Rightarrow> nat option" where
  "digitValue c =
     (let n = (of_char c :: nat)
      in if 48 \<le> n \<and> n \<le> 57 then Some (n - 48)
         else if 97 \<le> n \<and> n \<le> 122 then Some (n - 87)
         else if 65 \<le> n \<and> n \<le> 90 then Some (n - 55)
         else None)"

definition radixDigits :: "nat \<Rightarrow> string \<Rightarrow> nat list" where
  "radixDigits R s =
     map (\<lambda>c. case digitValue c of Some v \<Rightarrow> v | None \<Rightarrow> 0)
       (takeWhile (\<lambda>c. case digitValue c of Some v \<Rightarrow> v < R | None \<Rightarrow> False) s)"

definition parseInt :: "string \<Rightarrow> int option" where
  "parseInt str =
     (let s0 = dropWhile isWhiteSpace str;
          negative = startsWith s0 ''-'';
          s1 = (if startsWith s0 ''-'' \<or> startsWith s0 ''+'' then drop 1 s0 else s0);
          hex = (startsWith s1 ''0x'' \<or> startsWith s1 ''0X'');
          R = (if hex then 16 else 10);
          s2 = (if hex then drop 2 s1 else s1);
          ds = radixDigits R s2
      in if ds = [] then None
         else Some ((if negative then - 1 else 1) * int (foldl (\<lambda>acc v. acc * R + v) 0 ds)))"

text \<open>
  The decimal rendering of a line number inside the template literal that builds an id.
\<close>

function numberToString :: "nat \<Rightarrow> string" where
  "numberToString n =
     (if n < 10 then [char_of (48 + n)]
      else numberToString (n div 10) @ [char_of (48 + n mod 10)])"
  by pat_completeness auto
termination
  by (relation "measure id") auto

declare numberToString.simps [simp del]

subsection \<open>The loop over the tokens\<close>

text \<open>
  \<open>tokens[j]\<close> is \<open>undefined\<close> past the end of the array. \<open>lineCounter\<close> is incremented
  once per iteration, so it equals the loop index.
\<close>

definition tokenAt :: "Token list \<Rightarrow> nat \<Rightarrow> Token option" where
  "tokenAt tokens j = (if j < length tokens then Some (tokens ! j) else None)"

definition lineNumberOf :: "Token \<Rightarrow> nat \<Rightarrow> nat" where
  "lineNumberOf token lineCounter = (case tok_map token of Some (first, _) \<Rightarrow> first | None \<Rightarrow> lineCounter)"

text \<open>
  The first \<open>if\<close> of the loop body: a \<open>heading_open\<close> token of level two or deeper whose
  next token is inline appends a Heading item. A level that is \<open>NaN\<close> fails the test
  \<open>headingLevel >= 2\<close>.
\<close>

definition headingStep :: "Token list \<Rightarrow> string \<Rightarrow> nat \<Rightarrow> FlatItem list \<Rightarrow> FlatItem list" where
  "headingStep tokens path i flat =
     (let token = tokens ! i
      in if tok_type token = ''heading_open'' then
           (case parseInt (drop 1 (tok_tag token)) of
              None \<Rightarrow> flat
            | Some headingLevel \<Rightarrow>
                if headingLevel \<ge> 2 then
                  (case tokenAt tokens (i + 1) of
                     None \<Rightarrow> flat
                   | Some contentToken \<Rightarrow>
                       if tok_type contentToken = ''inline'' then
                         (let headingText = tok_content contentToken;
                              lineNumber = lineNumberOf token i
                          in flat @
                             [(HierarchyItem
                                 \<lparr>item_id = path @ '':'' @ numberToString lineNumber,
                                  item_type = Heading,
                                  item_text = headingText,
                                  state = None,
                                  aggregatedStatus = None,
                                  line = lineNumber,
                                  level = headingLevel,
                                  hasTaskDescendants = None\<rparr> [],
                               headingLevel)])
                       else flat)
                else flat)
         else flat)"

text \<open>
  The two \<open>if\<close>s that track the list nesting depth.
\<close>

definition depthStep :: "Token \<Rightarrow> int \<Rightarrow> int" where
  "depthStep token listDepth =
     (let d1 = (if tok_type token = ''bullet_list_open'' \<or> tok_type token = ''ordered_list_open''
                then listDepth + 1 else listDepth)
      in if tok_type token = ''bullet_list_close'' \<or> tok_type token = ''ordered_list_close''
         then d1 - 1 else d1)"

text \<open>
  The state and text of a list item. An item marked by the plugin takes its state from the
  checkbox element among the children and its text from the children that are not raw
  HTML; any other item is matched against \<open>/^\[-\]/\<close> and \<open>/^\[!\]/\<close>, and
  \<open>replace(/^\[-\]\s*/, '').trim()\<close> removes the three characters of the marker and the
  white space around the rest. The state stays \<open>null\<close> (\<open>None\<close>) when nothing matches.
\<close>

definition hasTaskClass :: "Token \<Rightarrow> bool" where
  "hasTaskClass token =
     (case tok_attrs token of
        None \<Rightarrow> False
      | Some as \<Rightarrow> list_ex (\<lambda>(key, val). key = ''class'' \<and> includes_str val ''task-list-item'') as)"

definition checkedAttr :: string where
  "checkedAttr = ''checked='' @ [CHR 0x22, CHR 0x22]"

definition detectTask :: "Token \<Rightarrow> Token \<Rightarrow> InlineChild list \<Rightarrow> TaskState option \<times> string" where
  "detectTask token contentToken cs =
     (if hasTaskClass token then
        (let inputChild =
               List.find (\<lambda>c. child_type c = ''html_inline'' \<and>
                               includes_str (child_content c) ''task-list-item-checkbox'') cs;
             st = (case inputChild of
                     None \<Rightarrow> None
                   | Some ic \<Rightarrow> if includes_str (child_content ic) checkedAttr then Some Done else Some Pending);
             txt = trim (concat (map child_content (filter (\<lambda>c. child_type c \<noteq> ''html_inline'') cs)))
         in (st, txt))
      else
        (let fullText = tok_content contentToken
         in if startsWith fullText ''[-]'' then
              (Some InProgress, trim (dropWhile isWhiteSpace (drop 3 fullText)))
            else if startsWith fullText ''[!]'' then
              (Some Blocked, trim (dropWhile isWhiteSpace (drop 3 fullText)))
            else (None, [])))"

text \<open>
  The backwards \<open>for\<close> loop over \<open>flatItems\<close>, from index \<open>j - 1\<close> down to 0: the level
  of the last Heading entry, 0 when there is none.
\<close>

fun lastHeadingLevel :: "FlatItem list \<Rightarrow> nat \<Rightarrow> int" where
  "lastHeadingLevel flat 0 = 0"
| "lastHeadingLevel flat (Suc j) =
     (if item_type (props (fst (flat ! j))) = Heading then snd (flat ! j)
      else lastHeadingLevel flat j)"

text \<open>
  The last \<open>if\<close> of the loop body: a \<open>list_item_open\<close> token whose second next token is
  inline and has children appends a Task item when a state was found and the text is not
  empty.
\<close>

definition taskStep :: "Token list \<Rightarrow> string \<Rightarrow> nat \<Rightarrow> int \<Rightarrow> FlatItem list \<Rightarrow> FlatItem list" where
  "taskStep tokens path i listDepth flat =
     (let token = tokens ! i
      in if tok_type token = ''list_item_open'' then
           (case tokenAt tokens (i + 2) of
              None \<Rightarrow> flat
            | Some contentToken \<Rightarrow>
                (case tok_children contentToken of
                   None \<Rightarrow> flat
                 | Some cs \<Rightarrow>
                     if tok_type contentToken = ''inline'' then
                       (case detectTask token contentToken cs of
                          (None, txt) \<Rightarrow> flat
                        | (Some st, txt) \<Rightarrow>
                            if txt \<noteq> [] then
                              (let lineNumber = lineNumberOf token i;
                                   headingLevel = lastHeadingLevel flat (length flat);
                                   taskLevel = headingLevel + listDepth
                               in flat @
                                  [(HierarchyItem
                                      \<lparr>item_id = path @ '':'' @ numberToString lineNumber,
                                       item_type = Task,
                                       item_text = txt,
                                       state = Some st,
                                       aggregatedStatus = None,
                                       line = lineNumber,
                                       level = taskLevel,
                                       hasTaskDescendants = None\<rparr> [],
                                    taskLevel)])
                            else flat)
                     else flat))
         else flat)"

text \<open>
  One iteration for the token at index \<open>i\<close>, on the pair of \<open>flatItems\<close> and
  \<open>listDepth\<close>; \<open>extractLoop tokens path m\<close> is the pair after the first \<open>m\<close> tokens.
\<close>

definition extractStep :: "Token list \<Rightarrow> string \<Rightarrow> nat \<Rightarrow> FlatItem list \<times> int \<Rightarrow> FlatItem list \<times> int" where
  "extractStep tokens path i s =
     (let flat1 = headingStep tokens path i (fst s);
          listDepth = depthStep (tokens ! i) (snd s);
          flat2 = taskStep tokens path i listDepth flat1
      in (flat2, listDepth))"

definition extractLoop :: "Token list \<Rightarrow> string \<Rightarrow> nat \<Rightarrow> FlatItem list \<times> int" where
  "extractLoop tokens path m = fold (extractStep tokens path) [0..<m] ([], 0)"

definition extractItems :: "Token list \<Rightarrow> string \<Rightarrow> FlatItem list" where
  "extractItems tokens path = fst (extractLoop tokens path (length tokens))"

section \<open>From the store to the tree; marking, filtering, aggregation, counting\<close>

text \<open>
  The functions after \<open>buildHierarchy\<close> walk the object graph below the returned root.
  \<open>readItems fuel arrs flatItems ks\<close> reads the items at the addresses \<open>ks\<close> as values,
  each with the items of its \<open>children\<close> array read in turn. The fuel bounds the nesting
  that is followed; \<open>None\<close> means the graph is nested deeper than the fuel, as a cyclic
  graph is for every fuel, on which the recursive walks of the program would not return.
\<close>

fun readItems :: "nat \<Rightarrow> (ArrayRef \<Rightarrow> nat list) \<Rightarrow> FlatItem list \<Rightarrow> nat list \<Rightarrow> HierarchyItem list option" where
  "readItems fuel arrs flatItems [] = Some []"
| "readItems 0 arrs flatItems (k # ks) = None"
| "readItems (Suc fuel) arrs flatItems (k # ks) =
     (case readItems fuel arrs flatItems (arrs (ChildrenOf k)) of
        None \<Rightarrow> None
      | Some cs \<Rightarrow>
          (case readItems (Suc fuel) arrs flatItems ks of
             None \<Rightarrow> None
           | Some rest \<Rightarrow> Some (HierarchyItem (props (fst (flatItems ! k))) cs # rest)))"

text \<open>
  \<open>markTaskDescendants\<close> sets \<open>hasTaskDescendants\<close> on every item in place and returns
  whether the list has any task; the model returns the updated list with that flag.
\<close>

fun markTaskDescendants :: "HierarchyItem list \<Rightarrow> HierarchyItem list \<times> bool" where
  "markTaskDescendants [] = ([], False)"
| "markTaskDescendants (HierarchyItem d cs # rest) =
     (let marked =
            (if item_type d = Task then
               (HierarchyItem (d\<lparr>hasTaskDescendants := Some True\<rparr>)
                  (if cs \<noteq> [] then fst (markTaskDescendants cs) else cs), True)
             else if cs \<noteq> [] then
               (let r = markTaskDescendants cs
                in (HierarchyItem (d\<lparr>hasTaskDescendants := Some (snd r)\<rparr>) (fst r), snd r))
             else (HierarchyItem (d\<lparr>hasTaskDescendants := Some False\<rparr>) cs, False));
          others = markTaskDescendants rest
      in (fst marked # fst others, snd marked \<or> snd others))"

text \<open>
  \<open>filter\<close> on the flag, then \<open>map\<close> to a copy with filtered children.
\<close>

fun filterTaskBranches :: "HierarchyItem list \<Rightarrow> HierarchyItem list" where
  "filterTaskBranches [] = []"
| "filterTaskBranches (HierarchyItem d cs # rest) =
     (if hasTaskDescendants d = Some True
      then HierarchyItem d (filterTaskBranches cs) # filterTaskBranches rest
      else filterTaskBranches rest)"

text \<open>
  The ways a run of \<open>parsePlan\<close> can end without a plan. \<open>RangeError\<close> is the error the
  engine raises when a call receives more arguments than it accepts; \<open>maxArgs\<close> is that
  bound, a parameter of the model since it depends on the engine. \<open>Unbounded\<close> stands for
  an object graph that the read-out cannot finish.

  \<open>collectTasks\<close> is the loop of \<open>collectDescendantTasks\<close> over a \<open>children\<close> array. The
  tasks below a child are added with \<open>tasks.push(...collectDescendantTasks(child))\<close>, one
  call that takes every collected task as an argument: it raises \<open>RangeError\<close> when there
  are more than \<open>maxArgs\<close> of them. \<open>aggregate\<close> is the choice of the status from the
  collected tasks.
\<close>

datatype Failure = RangeError | Unbounded

fun collectTasks :: "nat \<Rightarrow> HierarchyItem list \<Rightarrow> Failure + HierarchyItem list" where
  "collectTasks maxArgs [] = Inr []"
| "collectTasks maxArgs (HierarchyItem d cs # rest) =
     (case (if cs \<noteq> [] then
              (case collectTasks maxArgs cs of
                 Inl e \<Rightarrow> Inl e
               | Inr below \<Rightarrow> if length below > maxArgs then Inl RangeError else Inr below)
            else Inr []) of
        Inl e \<Rightarrow> Inl e
      | Inr below \<Rightarrow>
          (case collectTasks maxArgs rest of
             Inl e \<Rightarrow> Inl e
           | Inr others \<Rightarrow>
               Inr ((if item_type d = Task then [HierarchyItem d cs] else []) @ below @ others)))"

definition collectDescendantTasks :: "nat \<Rightarrow> HierarchyItem \<Rightarrow> Failure + HierarchyItem list" where
  "collectDescendantTasks maxArgs item = collectTasks maxArgs (children item)"

definition aggregate :: "HierarchyItem list \<Rightarrow> AggregatedStatus" where
  "aggregate descendantTasks =
     (if length descendantTasks = 0 then AggPending
      else
        (let doneCount = length (filter (\<lambda>t. state (props t) = Some Done) descendantTasks);
             total = length descendantTasks
         in if doneCount = total then AggDone
            else if doneCount > 0 then AggPartial
            else AggPending))"

text \<open>
  The children are processed first; an item with children then gets its status from the
  tasks collected below it. The length of a \<open>children\<close> array is not changed by the
  processing, so both tests of \<open>item.children.length > 0\<close> read the same value. An error
  raised while collecting is not caught and ends the whole run.
\<close>

fun calculateAggregatedStatus :: "nat \<Rightarrow> HierarchyItem list \<Rightarrow> Failure + HierarchyItem list" where
  "calculateAggregatedStatus maxArgs [] = Inr []"
| "calculateAggregatedStatus maxArgs (HierarchyItem d cs # rest) =
     (case (if cs \<noteq> [] then calculateAggregatedStatus maxArgs cs else Inr cs) of
        Inl e \<Rightarrow> Inl e
      | Inr cs' \<Rightarrow>
          (case (if cs \<noteq> [] then
                   (case collectDescendantTasks maxArgs (HierarchyItem d cs') of
                      Inl e \<Rightarrow> Inl e
                    | Inr descendantTasks \<Rightarrow>
                        Inr (HierarchyItem (d\<lparr>aggregatedStatus := Some (aggregate descendantTasks)\<rparr>) cs'))
                 else Inr (HierarchyItem d cs')) of
             Inl e \<Rightarrow> Inl e
           | Inr item' \<Rightarrow>
               (case calculateAggregatedStatus maxArgs rest of
                  Inl e \<Rightarrow> Inl e
                | Inr rest' \<Rightarrow> Inr (item' # rest'))))"

text \<open>
  \<open>countTasks\<close>, the closure that fills \<open>counts\<close>: \<open>countState\<close> is its update for one
  item, and the counters are passed along instead of being mutated.
\<close>

definition countState :: "ItemFields \<Rightarrow> StateCount \<Rightarrow> StateCount" where
  "countState d counts =
     (if item_type d = Task then
        (case state d of
           None \<Rightarrow> counts
         | Some Pending \<Rightarrow> counts\<lparr>n_pending := n_pending counts + 1\<rparr>
         | Some Done \<Rightarrow> counts\<lparr>n_done := n_done counts + 1\<rparr>
         | Some InProgress \<Rightarrow> counts\<lparr>n_inProgress := n_inProgress counts + 1\<rparr>
         | Some Blocked \<Rightarrow> counts\<lparr>n_blocked := n_blocked counts + 1\<rparr>)
      else counts)"

fun countTasks :: "HierarchyItem list \<Rightarrow> StateCount \<Rightarrow> StateCount" where
  "countTasks [] counts = counts"
| "countTasks (HierarchyItem d cs # rest) counts =
     (let counts1 = countState d counts;
          counts2 = (if cs \<noteq> [] then countTasks cs counts1 else counts1)
      in countTasks rest counts2)"

section \<open>Notions the properties are stated with\<close>

text \<open>
  \<open>itemsOf forest\<close> lists every node of a forest, parents before children and siblings in
  order. \<open>containsTask forest\<close> holds when some node of the forest is a task.
  \<open>prune\<close> is the branch filter as the specification words it: a node whose subtree,
  the node included, contains no task is dropped with its subtree, and every other node
  is kept, flagged, over its pruned children.
\<close>

fun itemsOf :: "HierarchyItem list \<Rightarrow> HierarchyItem list" where
  "itemsOf [] = []"
| "itemsOf (HierarchyItem d cs # rest) = HierarchyItem d cs # itemsOf cs @ itemsOf rest"

fun containsTask :: "HierarchyItem list \<Rightarrow> bool" where
  "containsTask [] = False"
| "containsTask (HierarchyItem d cs # rest) = (item_type d = Task \<or> containsTask cs \<or> containsTask rest)"

fun prune :: "HierarchyItem list \<Rightarrow> HierarchyItem list" where
  "prune [] = []"
| "prune (HierarchyItem d cs # rest) =
     (if containsTask [HierarchyItem d cs]
      then HierarchyItem (d\<lparr>hasTaskDescendants := Some True\<rparr>) (prune cs) # prune rest
      else prune rest)"

text \<open>
  \<open>treeOf flatItems k\<close> is the tree the specification asks for below item \<open>k\<close>: its
  children are the trees of the later items whose nearest earlier item of strictly smaller
  level is \<open>k\<close>, in document order. \<open>builtForest\<close> is the forest of the items without
  such a predecessor.
\<close>

function treeOf :: "FlatItem list \<Rightarrow> nat \<Rightarrow> HierarchyItem" where
  "treeOf flatItems k =
     HierarchyItem (props (fst (flatItems ! k)))
       (map (treeOf flatItems)
          (filter (\<lambda>c. nearestSmaller flatItems c = Some k) [Suc k..<length flatItems]))"
  by pat_completeness auto

termination
  by (relation "measure (\<lambda>(fl, k). length fl - k)") auto

declare treeOf.simps [simp del]

text \<open>
  \<open>extracted\<close> gives the fields of a node as the extractor set them, the two derived
  fields reset. \<open>descendantTasks node\<close> lists the task nodes among all transitive
  descendants of a node, and \<open>aggregateSpec\<close> is the status the specification assigns to
  such a list.
\<close>

definition isTask :: "HierarchyItem \<Rightarrow> bool" where
  "isTask item = (item_type (props item) = Task)"

definition extracted :: "HierarchyItem \<Rightarrow> ItemFields" where
  "extracted item = (props item)\<lparr>aggregatedStatus := None, hasTaskDescendants := None\<rparr>"


definition descendantTasks :: "HierarchyItem \<Rightarrow> HierarchyItem list" where
  "descendantTasks node = filter isTask (itemsOf (children node))"

definition stateTotal :: "StateCount \<Rightarrow> nat" where
  "stateTotal c = n_pending c + n_done c + n_inProgress c + n_blocked c"

text \<open>
  For the count of nodes: the fields of all nodes of the tree below an item, as a multiset,
  and the items whose parent, if any, lies before position \<open>j\<close>.
\<close>

definition nodesBelow :: "FlatItem list \<Rightarrow> nat \<Rightarrow> ItemFields multiset" where
  "nodesBelow fl k = image_mset props (mset (itemsOf [treeOf fl k]))"

definition exposed :: "FlatItem list \<Rightarrow> nat \<Rightarrow> nat \<Rightarrow> bool" where
  "exposed fl j k = (case nearestSmaller fl k of None \<Rightarrow> True | Some p \<Rightarrow> p < j)"

definition builtForest :: "FlatItem list \<Rightarrow> HierarchyItem list" where
  "builtForest flat = map (treeOf flat) (filter (\<lambda>k. nearestSmaller flat k = None) [0..<length flat])"

text \<open>
  What every entry of the extractor's output satisfies.
\<close>

definition wellExtracted :: "FlatItem \<Rightarrow> bool" where
  "wellExtracted e =
     (aggregatedStatus (props (fst e)) = None \<and> hasTaskDescendants (props (fst e)) = None \<and>
      children (fst e) = [] \<and> level (props (fst e)) = snd e \<and>
      (if item_type (props (fst e)) = Task then state (props (fst e)) \<noteq> None
       else state (props (fst e)) = None))"

text \<open>
  \<open>tooWide maxArgs forest\<close> holds when some node of the forest has children and more than
  \<open>maxArgs\<close> descendant tasks; \<open>spreadOverflow maxArgs forest\<close> holds when the children of
  some node are too wide in this sense, which is when the aggregation raises.
\<close>

definition tooWide :: "nat \<Rightarrow> HierarchyItem list \<Rightarrow> bool" where
  "tooWide maxArgs forest =
     list_ex (\<lambda>c. children c \<noteq> [] \<and> maxArgs < length (descendantTasks c)) (itemsOf forest)"

definition spreadOverflow :: "nat \<Rightarrow> HierarchyItem list \<Rightarrow> bool" where
  "spreadOverflow maxArgs forest = list_ex (\<lambda>n. tooWide maxArgs (children n)) (itemsOf forest)"

text \<open>
  \<open>nestingDepth tokens i\<close> is the list nesting depth at token \<open>i\<close>: the lists opened minus
  the lists closed among the tokens up to and including \<open>i\<close>.
  \<open>nearestHeadingLevel flat\<close> is the level of the last Heading entry of \<open>flat\<close>, 0 when
  it has none.
\<close>

definition isListOpen :: "Token \<Rightarrow> bool" where
  "isListOpen t = (tok_type t = ''bullet_list_open'' \<or> tok_type t = ''ordered_list_open'')"

definition isListClose :: "Token \<Rightarrow> bool" where
  "isListClose t = (tok_type t = ''bullet_list_close'' \<or> tok_type t = ''ordered_list_close'')"

definition depthAfter :: "Token list \<Rightarrow> int" where
  "depthAfter ts = int (length (filter isListOpen ts)) - int (length (filter isListClose ts))"

definition nestingDepth :: "Token list \<Rightarrow> nat \<Rightarrow> int" where
  "nestingDepth tokens i = depthAfter (take (Suc i) tokens)"

definition isHeadingEntry :: "FlatItem \<Rightarrow> bool" where
  "isHeadingEntry e = (item_type (props (fst e)) = Heading)"

definition nearestHeadingLevel :: "FlatItem list \<Rightarrow> int" where
  "nearestHeadingLevel flat = (case filter isHeadingEntry (rev flat) of [] \<Rightarrow> 0 | e # _ \<Rightarrow> snd e)"

section \<open>parsePlan\<close>

text \<open>
  The title is the first line with a leading run of \<open>#\<close> and the white space after it
  removed, trimmed; the subtitle is the part of the path after the last \<open>/\<close> or
  backslash, the whole path when that part is empty.
\<close>

definition firstLineOf :: "string \<Rightarrow> string" where
  "firstLineOf content =
     (let l = takeWhile (\<lambda>c. c \<noteq> CHR 0x0A) content;
          stripped = (if startsWith l ''#''
                      then dropWhile isWhiteSpace (dropWhile (\<lambda>c. c = CHR ''#'') l) else l)
      in trim stripped)"

definition fileNameOf :: "string \<Rightarrow> string" where
  "fileNameOf path =
     (let lastPart = rev (takeWhile (\<lambda>c. c \<noteq> CHR ''/'' \<and> c \<noteq> CHR 0x5C) (rev path))
      in if lastPart \<noteq> [] then lastPart else path)"

text \<open>
  \<open>parsePlan\<close> takes the engine's argument bound and the tokenizer as parameters. The
  forest handed from \<open>buildHierarchy\<close> to the later stages is read from the store with as
  much fuel as there are items. The result is \<open>Inl\<close> when that read-out fails or when
  \<open>calculateAggregatedStatus\<close> raises, and \<open>Inr\<close> the plan otherwise.
\<close>

definition parsePlan :: "nat \<Rightarrow> (string \<Rightarrow> Token list) \<Rightarrow> string \<Rightarrow> string \<Rightarrow> Failure + ParsedPlan" where
  "parsePlan maxArgs md content path =
     (let tokens = md content;
          flat = extractItems tokens path;
          store = buildHierarchy flat
      in case readItems (length flat) store flat (store RootArray) of
           None \<Rightarrow> Inl Unbounded
         | Some built \<Rightarrow>
             (let marked = fst (markTaskDescendants built);
                  filtered = filterTaskBranches marked
              in case calculateAggregatedStatus maxArgs filtered of
                   Inl e \<Rightarrow> Inl e
                 | Inr hierarchical \<Rightarrow>
                     (let counts = countTasks hierarchical
                                     \<lparr>n_pending = 0, n_done = 0, n_inProgress = 0, n_blocked = 0\<rparr>;
                          totalTaskCount =
                            length (filter (\<lambda>e. item_type (props (fst e)) = Task) flat);
                          firstLine = firstLineOf content;
                          fileName = fileNameOf path
                      in Inr \<lparr>title = (if firstLine \<noteq> [] then firstLine else ''Untitled Plan''),
                              subtitle = fileName,
                              filePath = path,
                              tasks = hierarchical,
                              totalCount = totalTaskCount,
                              stateCount = counts\<rparr>)))"

section \<open>Sample data\<close>

text \<open>Items as the extractor allocates them, and a flat list with its levels.\<close>

definition headingItem :: "string \<Rightarrow> nat \<Rightarrow> int \<Rightarrow> HierarchyItem" where
  "headingItem txt lineNo lvl =
     HierarchyItem \<lparr>item_id = ''PLAN.md:'' @ txt, item_type = Heading, item_text = txt, state = None,
       aggregatedStatus = None, line = lineNo, level = lvl, hasTaskDescendants = None\<rparr> []"

definition taskItem :: "string \<Rightarrow> TaskState \<Rightarrow> nat \<Rightarrow> int \<Rightarrow> HierarchyItem" where
  "taskItem txt st lineNo lvl =
     HierarchyItem \<lparr>item_id = ''PLAN.md:'' @ txt, item_type = Task, item_text = txt, state = Some st,
       aggregatedStatus = None, line = lineNo, level = lvl, hasTaskDescendants = None\<rparr> []"

definition sampleFlat :: "FlatItem list" where
  "sampleFlat =
     [(headingItem ''Build'' 1 2, 2), (taskItem ''compile'' Done 2 3, 3),
      (taskItem ''link'' Pending 3 4, 4), (taskItem ''test'' Blocked 4 3, 3),
      (headingItem ''Ship'' 5 2, 2), (taskItem ''tag'' InProgress 6 3, 3)]"

text \<open>Sample data: an empty plan, a cache with no entries, and two file systems.\<close>

definition samplePlan :: ParsedPlan where
  "samplePlan = \<lparr>title = ''Plan'', subtitle = ''PLAN.md'', filePath = ''/w/PLAN.md'', tasks = [],
     totalCount = 0, stateCount = \<lparr>n_pending = 0, n_done = 0, n_inProgress = 0, n_blocked = 0\<rparr>\<rparr>"

definition emptyCache :: PlanCache where
  "emptyCache = \<lparr>cache = Map.empty, outputChannel = []\<rparr>"

definition fsAt :: "real \<Rightarrow> FileSystem" where
  "fsAt t = (\<lambda>p. if p = ''/w/PLAN.md'' then Inr t else Inl ''ENOENT'')"

definition fsMissing :: FileSystem where
  "fsMissing = (\<lambda>p. Inl ''ENOENT'')"

text \<open>
  Tokens as markdown-it produces them, and the token streams of two documents: the scenario
  of the specification (a title, a section, an open and a checked item) and a list of three
  items with custom markers.
\<close>

definition tok :: "string \<Rightarrow> string \<Rightarrow> nat \<Rightarrow> Token" where
  "tok ty tg first =
     \<lparr>tok_type = ty, tok_tag = tg, tok_content = [], tok_map = Some (first, first + 1),
      tok_attrs = None, tok_children = None\<rparr>"

definition inlineTok :: "string \<Rightarrow> nat \<Rightarrow> InlineChild list \<Rightarrow> Token" where
  "inlineTok txt first cs =
     \<lparr>tok_type = ''inline'', tok_tag = [], tok_content = txt, tok_map = Some (first, first + 1),
      tok_attrs = None, tok_children = Some cs\<rparr>"

definition textChild :: "string \<Rightarrow> InlineChild" where
  "textChild txt = \<lparr>child_type = ''text'', child_content = txt\<rparr>"

definition htmlChild :: "string \<Rightarrow> InlineChild" where
  "htmlChild txt = \<lparr>child_type = ''html_inline'', child_content = txt\<rparr>"

definition taskListItem :: "nat \<Rightarrow> Token" where
  "taskListItem first = (tok ''list_item_open'' ''li'' first)\<lparr>tok_attrs := Some [(''class'', ''task-list-item'')]\<rparr>"

definition checkbox :: "bool \<Rightarrow> InlineChild" where
  "checkbox checked =
     htmlChild (''<input class='' @ [CHR 0x22] @ ''task-list-item-checkbox'' @ [CHR 0x22] @
                (if checked then '' '' @ checkedAttr else []) @ '' disabled type=checkbox>'')"

definition scenarioTokens :: "Token list" where
  "scenarioTokens =
     [tok ''heading_open'' ''h1'' 0, inlineTok ''Title'' 0 [textChild ''Title''], tok ''heading_close'' ''h1'' 0,
      tok ''heading_open'' ''h2'' 1, inlineTok ''Section'' 1 [textChild ''Section''], tok ''heading_close'' ''h2'' 1,
      tok ''bullet_list_open'' ''ul'' 2,
      taskListItem 2, tok ''paragraph_open'' ''p'' 2,
      inlineTok ''[ ] A'' 2 [htmlChild ''<label>'', checkbox False, textChild '' A'', htmlChild ''</label>''],
      tok ''paragraph_close'' ''p'' 2, tok ''list_item_close'' ''li'' 2,
      taskListItem 3, tok ''paragraph_open'' ''p'' 3,
      inlineTok ''[x] B'' 3 [htmlChild ''<label>'', checkbox True, textChild '' B'', htmlChild ''</label>''],
      tok ''paragraph_close'' ''p'' 3, tok ''list_item_close'' ''li'' 3,
      tok ''bullet_list_close'' ''ul'' 2]"

definition customTokens :: "Token list" where
  "customTokens =
     [tok ''bullet_list_open'' ''ul'' 0,
      tok ''list_item_open'' ''li'' 0, tok ''paragraph_open'' ''p'' 0,
      inlineTok ''[!] Blocked thing'' 0 [textChild ''[!] Blocked thing''],
      tok ''paragraph_close'' ''p'' 0, tok ''list_item_close'' ''li'' 0,
      tok ''list_item_open'' ''li'' 1, tok ''paragraph_open'' ''p'' 1,
      inlineTok ''[>] Ship it'' 1 [textChild ''[>] Ship it''],
      tok ''paragraph_close'' ''p'' 1, tok ''list_item_close'' ''li'' 1,
      tok ''list_item_open'' ''li'' 2, tok ''paragraph_open'' ''p'' 2,
      inlineTok ''[-]'' 2 [textChild ''[-]''],
      tok ''paragraph_close'' ''p'' 2, tok ''list_item_close'' ''li'' 2,
      tok ''bullet_list_close'' ''ul'' 0]"

text \<open>
  A forest with a heading that has no task below it.
\<close>

definition sampleForest :: "HierarchyItem list" where
  "sampleForest =
     [HierarchyItem (props (headingItem ''Notes'' 0 2)) [headingItem ''Ideas'' 1 3],
      HierarchyItem (props (headingItem ''Build'' 2 2))
        [taskItem ''compile'' Done 3 3, headingItem ''Later'' 4 3, taskItem ''test'' Blocked 5 3]]"

text \<open>
  The scenario's text, a tokenizer that knows it, and the plan it parses to.
\<close>

definition scenarioText :: string where
  "scenarioText = ''# Title'' @ [CHR 0x0A] @ ''## Section'' @ [CHR 0x0A] @ ''- [ ] A'' @ [CHR 0x0A] @
     ''- [x] B'' @ [CHR 0x0A]"

definition scenarioMd :: "string \<Rightarrow> Token list" where
  "scenarioMd content = (if content = scenarioText then scenarioTokens else [])"

definition scenarioSection :: HierarchyItem where
  "scenarioSection =
     HierarchyItem
       \<lparr>item_id = ''/w/PLAN.md:1'', item_type = Heading, item_text = ''Section'', state = None,
        aggregatedStatus = Some AggPartial, line = 1, level = 2, hasTaskDescendants = Some True\<rparr>
       [HierarchyItem
          \<lparr>item_id = ''/w/PLAN.md:2'', item_type = Task, item_text = ''A'', state = Some Pending,
           aggregatedStatus = None, line = 2, level = 3, hasTaskDescendants = Some True\<rparr> [],
        HierarchyItem
          \<lparr>item_id = ''/w/PLAN.md:3'', item_type = Task, item_text = ''B'', state = Some Done,
           aggregatedStatus = None, line = 3, level = 3, hasTaskDescendants = Some True\<rparr> []]"

definition scenarioPlan :: ParsedPlan where
  "scenarioPlan =
     \<lparr>title = ''Title'', subtitle = ''PLAN.md'', filePath = ''/w/PLAN.md'',
      tasks = [scenarioSection], totalCount = 2,
      stateCount = \<lparr>n_pending = 1, n_done = 1, n_inProgress = 0, n_blocked = 0\<rparr>\<rparr>"

text \<open>
  A section, a subsection and three open items below it, with their tokens.
\<close>

definition nestedText :: string where
  "nestedText = ''## A'' @ [CHR 0x0A] @ ''### B'' @ [CHR 0x0A] @ ''- [ ] a'' @ [CHR 0x0A] @
     ''- [ ] b'' @ [CHR 0x0A] @ ''- [ ] c'' @ [CHR 0x0A]"

definition openItem :: "string \<Rightarrow> nat \<Rightarrow> Token list" where
  "openItem txt first =
     [taskListItem first, tok ''paragraph_open'' ''p'' first,
      inlineTok (''[ ] '' @ txt) first
        [htmlChild ''<label>'', checkbox False, textChild ('' '' @ txt), htmlChild ''</label>''],
      tok ''paragraph_close'' ''p'' first, tok ''list_item_close'' ''li'' first]"

definition nestedTokens :: "Token list" where
  "nestedTokens =
     [tok ''heading_open'' ''h2'' 0, inlineTok ''A'' 0 [textChild ''A''], tok ''heading_close'' ''h2'' 0,
      tok ''heading_open'' ''h3'' 1, inlineTok ''B'' 1 [textChild ''B''], tok ''heading_close'' ''h3'' 1,
      tok ''bullet_list_open'' ''ul'' 2] @
     openItem ''a'' 2 @ openItem ''b'' 3 @ openItem ''c'' 4 @
     [tok ''bullet_list_close'' ''ul'' 2]"

definition nestedMd :: "string \<Rightarrow> Token list" where
  "nestedMd content = (if content = nestedText then nestedTokens else [])"

section \<open>Properties of the plan cache\<close>

lemma cache_appendLine [simp]: "cache (appendLine msg this) = cache this"
  by (simp add: appendLine_def)

text \<open>
  Claim C4. Once \<open>set\<close> has stored a plan for a path whose modification time was read as
  \<open>T\<close>, the entry holds \<open>T\<close> and the plan, and the next \<open>get\<close> for that path returns
  exactly that plan when the file's modification time is still \<open>T\<close> and \<open>null\<close> when
  it is anything else. A \<open>get\<close> for a path without an entry returns \<open>null\<close>.
\<close>

theorem cache_set_get:
  "(fs path = Inr T \<longrightarrow>
      cache (PlanCache_set fs this path plan) path = Some \<lparr>mtime = T, parsed = plan\<rparr> \<and>
      (fs' path = Inr T \<longrightarrow> fst (PlanCache_get fs' (PlanCache_set fs this path plan) path) = Some plan) \<and>
      (fs' path \<noteq> Inr T \<longrightarrow> fst (PlanCache_get fs' (PlanCache_set fs this path plan) path) = None)) \<and>
   (cache this path = None \<longrightarrow> fst (PlanCache_get fs this path) = None)"
  by (auto simp: PlanCache_get_def PlanCache_set_def split: sum.splits option.splits)

theorem cache_set_get_witness:
  "fsAt 100 ''/w/PLAN.md'' = Inr 100 \<and>
   fsAt 250 ''/w/PLAN.md'' \<noteq> Inr 100 \<and>
   cache emptyCache ''/w/PLAN.md'' = None \<and>
   fst (PlanCache_get (fsAt 100) (PlanCache_set (fsAt 100) emptyCache ''/w/PLAN.md'' samplePlan) ''/w/PLAN.md'') = Some samplePlan \<and>
   fst (PlanCache_get (fsAt 250) (PlanCache_set (fsAt 100) emptyCache ''/w/PLAN.md'' samplePlan) ''/w/PLAN.md'') = None \<and>
   fst (PlanCache_get (fsAt 100) emptyCache ''/w/PLAN.md'') = None"
proof -
  have a: "fsAt 100 ''/w/PLAN.md'' = Inr 100" by (simp add: fsAt_def)
  have b: "fsAt 250 ''/w/PLAN.md'' \<noteq> Inr 100" by (simp add: fsAt_def)
  have c: "cache emptyCache ''/w/PLAN.md'' = None" by (simp add: emptyCache_def)
  show ?thesis
    using a b c
      cache_set_get [of "fsAt 100" "''/w/PLAN.md''" 100 emptyCache samplePlan "fsAt 100"]
      cache_set_get [of "fsAt 100" "''/w/PLAN.md''" 100 emptyCache samplePlan "fsAt 250"]
    by simp
qed

text \<open>
  Claim C7. When \<open>fs.stat\<close> fails for a path, \<open>get\<close> returns \<open>null\<close> and \<open>set\<close>
  completes; neither changes the cache map. In the model a thrown error would have to be
  a value of the result type: both results are ordinary values, the rejection of
  \<open>fs.stat\<close> being consumed by the \<open>catch\<close> branch.
\<close>

theorem cache_stat_failure:
  "fs path = Inl err \<Longrightarrow>
     fst (PlanCache_get fs this path) = None \<and>
     cache (snd (PlanCache_get fs this path)) = cache this \<and>
     cache (PlanCache_set fs this path plan) = cache this"
  by (simp add: PlanCache_get_def PlanCache_set_def)

theorem cache_stat_failure_witness:
  "fsMissing ''/w/PLAN.md'' = Inl ''ENOENT'' \<and>
   fst (PlanCache_get fsMissing emptyCache ''/w/PLAN.md'') = None \<and>
   cache (snd (PlanCache_get fsMissing emptyCache ''/w/PLAN.md'')) = cache emptyCache \<and>
   cache (PlanCache_set fsMissing emptyCache ''/w/PLAN.md'' samplePlan) = cache emptyCache"
proof -
  have a: "fsMissing ''/w/PLAN.md'' = Inl ''ENOENT''" by (simp add: fsMissing_def)
  show ?thesis
    using a cache_stat_failure [of fsMissing "''/w/PLAN.md''" "''ENOENT''" emptyCache samplePlan]
    by simp
qed

section \<open>Properties of the hierarchy builder\<close>

lemma searchBack_None:
  "searchBack fl lvl n = None \<longleftrightarrow> (\<forall>j<n. lvl \<le> snd (fl ! j))"
  by (induction n) (auto simp: less_Suc_eq)

lemma searchBack_Some:
  "searchBack fl lvl n = Some j \<longleftrightarrow>
     j < n \<and> snd (fl ! j) < lvl \<and> (\<forall>i. j < i \<and> i < n \<longrightarrow> lvl \<le> snd (fl ! i))"
proof (induction n)
  case 0
  then show ?case by simp
next
  case (Suc n)
  show ?case
  proof (cases "snd (fl ! n) < lvl")
    case True
    have "n = j \<longleftrightarrow> j < Suc n \<and> snd (fl ! j) < lvl \<and> (\<forall>i. j < i \<and> i < Suc n \<longrightarrow> lvl \<le> snd (fl ! i))"
      using True by (metis less_Suc_eq linorder_not_less not_less_eq)
    with True show ?thesis by auto
  next
    case False
    then show ?thesis using Suc
      by (auto simp: less_Suc_eq)
  qed
qed

lemma nearestSmaller_less: "nearestSmaller fl k = Some p \<Longrightarrow> p < k"
  by (simp add: nearestSmaller_def searchBack_Some)

lemma parentArray_Root:
  "parentArray fl k = RootArray \<longleftrightarrow> (\<forall>j<k. snd (fl ! k) \<le> snd (fl ! j))"
proof (cases "searchBack fl (snd (fl ! k)) k")
  case None
  then show ?thesis
    using searchBack_None [of fl "snd (fl ! k)" k] by (simp add: parentArray_def nearestSmaller_def)
next
  case (Some x)
  then have "x < k \<and> snd (fl ! x) < snd (fl ! k)" by (simp add: searchBack_Some)
  then have "\<not> (\<forall>j<k. snd (fl ! k) \<le> snd (fl ! j))" by (meson linorder_not_less)
  with Some show ?thesis by (simp add: parentArray_def nearestSmaller_def)
qed

lemma parentArray_Child:
  "parentArray fl k = ChildrenOf p \<longleftrightarrow>
     p < k \<and> snd (fl ! p) < snd (fl ! k) \<and> (\<forall>i. p < i \<and> i < k \<longrightarrow> snd (fl ! k) \<le> snd (fl ! i))"
proof (cases "searchBack fl (snd (fl ! k)) k")
  case None
  then have "\<forall>j<k. snd (fl ! k) \<le> snd (fl ! j)" by (simp add: searchBack_None)
  then have "\<not> (p < k \<and> snd (fl ! p) < snd (fl ! k))" by (meson linorder_not_less)
  with None show ?thesis by (auto simp: parentArray_def nearestSmaller_def)
next
  case (Some x)
  have "parentArray fl k = ChildrenOf p \<longleftrightarrow> searchBack fl (snd (fl ! k)) k = Some p"
    using Some by (simp add: parentArray_def nearestSmaller_def)
  then show ?thesis by (simp add: searchBack_Some)
qed

lemma popFrames_parent:
  "chain fl fs \<Longrightarrow> above fs \<le> m \<Longrightarrow>
   (\<forall>i. above fs \<le> i \<and> i < m \<longrightarrow> snd (fl ! m) \<le> snd (fl ! i)) \<Longrightarrow>
   parentArray fl m = topArray (popFrames (snd (fl ! m)) fs) \<and> chain fl (popFrames (snd (fl ! m)) fs)"
proof (induction fs)
  case Nil
  then show ?case by (simp add: parentArray_Root topArray_def above_def)
next
  case (Cons f rest)
  obtain l a where f: "f = (l, a)" by (cases f)
  from Cons.prems f have la: "l = snd (fl ! a)" and par: "parentArray fl a = topArray rest"
    and ch: "chain fl rest" and am: "a < m"
    and hi: "\<forall>i. a < i \<and> i < m \<longrightarrow> snd (fl ! m) \<le> snd (fl ! i)"
    by (auto simp: above_def)
  show ?case
  proof (cases "snd (fl ! m) \<le> l")
    case True
    have ab: "above rest \<le> m \<and> (\<forall>i. above rest \<le> i \<and> i < m \<longrightarrow> snd (fl ! m) \<le> snd (fl ! i))"
    proof (cases rest)
      case Nil
      with par have lo: "\<forall>j<a. snd (fl ! a) \<le> snd (fl ! j)"
        by (simp add: topArray_def parentArray_Root)
      have "snd (fl ! m) \<le> snd (fl ! i)" if "i < m" for i
      proof -
        consider "i < a" | "i = a" | "a < i" by (rule linorder_cases)
        then show ?thesis
        proof cases
          case 1
          with lo have "snd (fl ! a) \<le> snd (fl ! i)" by simp
          with True la show ?thesis by simp
        next
          case 2
          with True la show ?thesis by simp
        next
          case 3
          with hi that show ?thesis by simp
        qed
      qed
      with Nil show ?thesis by (simp add: above_def)
    next
      case (Cons g rest')
      obtain l' b where g: "g = (l', b)" by (cases g)
      with par Cons have ba: "b < a" and lo: "\<forall>i. b < i \<and> i < a \<longrightarrow> snd (fl ! a) \<le> snd (fl ! i)"
        by (simp_all add: topArray_def parentArray_Child)
      have "snd (fl ! m) \<le> snd (fl ! i)" if "b < i" "i < m" for i
      proof -
        consider "i < a" | "i = a" | "a < i" by (rule linorder_cases)
        then show ?thesis
        proof cases
          case 1
          with lo that have "snd (fl ! a) \<le> snd (fl ! i)" by simp
          with True la show ?thesis by simp
        next
          case 2
          with True la show ?thesis by simp
        next
          case 3
          with hi that show ?thesis by simp
        qed
      qed
      with Cons g ba am show ?thesis by (simp add: above_def Suc_le_eq)
    qed
    with Cons.IH [OF ch] True f show ?thesis by simp
  next
    case False
    with la hi am have "parentArray fl m = ChildrenOf a"
      by (simp add: parentArray_Child)
    with False f Cons.prems show ?thesis by (simp add: topArray_def)
  qed
qed

lemma buildLoop_Suc:
  "buildLoop fl (Suc m) = pushItem m (snd (fl ! m)) (buildLoop fl m)"
  by (simp add: buildLoop_def)

lemma buildLoop_invariant:
  "(\<forall>a. arrays (buildLoop fl m) a = filter (\<lambda>k. parentArray fl k = a) [0..<m]) \<and>
   chain fl (stack (buildLoop fl m)) \<and> above (stack (buildLoop fl m)) = m"
proof (induction m)
  case 0
  then show ?case by (simp add: buildLoop_def above_def)
next
  case (Suc m)
  let ?s = "buildLoop fl m"
  from Suc have arr: "\<And>a. arrays ?s a = filter (\<lambda>k. parentArray fl k = a) [0..<m]"
    and ch: "chain fl (stack ?s)" and ab: "above (stack ?s) = m" by auto
  have pp: "parentArray fl m = topArray (popFrames (snd (fl ! m)) (stack ?s)) \<and>
            chain fl (popFrames (snd (fl ! m)) (stack ?s))"
    by (rule popFrames_parent [OF ch]) (simp_all add: ab)
  show ?case
    using pp arr by (auto simp: buildLoop_Suc pushItem_def Let_def above_def)
qed

lemma buildHierarchy_arrays:
  "buildHierarchy flatItems RootArray =
     filter (\<lambda>k. nearestSmaller flatItems k = None) [0..<length flatItems] \<and>
   buildHierarchy flatItems (ChildrenOf p) =
     filter (\<lambda>k. nearestSmaller flatItems k = Some p) [0..<length flatItems]"
proof -
  have "\<And>k. (parentArray flatItems k = RootArray) = (nearestSmaller flatItems k = None)"
    by (simp add: parentArray_def split: option.splits)
  moreover have "\<And>k. (parentArray flatItems k = ChildrenOf p) = (nearestSmaller flatItems k = Some p)"
    by (simp add: parentArray_def split: option.splits)
  ultimately show ?thesis
    using buildLoop_invariant [of flatItems "length flatItems"]
    by (simp add: buildHierarchy_def)
qed

section \<open>Properties of marking, filtering, aggregation and counting\<close>

lemma itemsOf_append [simp]: "itemsOf (xs @ ys) = itemsOf xs @ itemsOf ys"
  by (induction xs rule: itemsOf.induct) auto

lemma containsTask_itemsOf: "containsTask f \<longleftrightarrow> (\<exists>n \<in> set (itemsOf f). isTask n)"
  by (induction f rule: itemsOf.induct) (auto simp: isTask_def)

lemma markTaskDescendants_snd: "snd (markTaskDescendants f) = containsTask f"
  by (induction f rule: itemsOf.induct) (auto simp: Let_def)

lemma filter_mark_prune: "filterTaskBranches (fst (markTaskDescendants f)) = prune f"
proof (induction f rule: itemsOf.induct)
  case 1
  then show ?case by simp
next
  case (2 d cs rest)
  then show ?case
    by (cases "cs = []") (auto simp: Let_def markTaskDescendants_snd)
qed

lemma prune_flags:
  "n \<in> set (itemsOf (prune f)) \<Longrightarrow> hasTaskDescendants (props n) = Some True \<and> containsTask [n]"
proof (induction f rule: itemsOf.induct)
  case 1
  then show ?case by simp
next
  case (2 d cs rest)
  show ?case
  proof (cases "containsTask [HierarchyItem d cs]")
    case True
    have ct: "containsTask (prune xs) = containsTask xs" for xs
      by (induction xs rule: itemsOf.induct) auto
    from True 2 show ?thesis by (auto simp: ct)
  next
    case False
    with 2 show ?thesis by auto
  qed
qed

lemma no_task_no_survivor:
  "\<not> containsTask f \<Longrightarrow> filter (\<lambda>n. containsTask [n]) (itemsOf f) = []"
  by (induction f rule: itemsOf.induct) auto

lemma prune_survivors:
  "map extracted (itemsOf (prune f)) = map extracted (filter (\<lambda>n. containsTask [n]) (itemsOf f))"
proof (induction f rule: itemsOf.induct)
  case 1
  then show ?case by simp
next
  case (2 d cs rest)
  show ?case
  proof (cases "containsTask [HierarchyItem d cs]")
    case True
    with 2 show ?thesis by (auto simp: extracted_def)
  next
    case False
    then have "\<not> containsTask cs" by simp
    with False 2 show ?thesis by (simp add: no_task_no_survivor)
  qed
qed

lemma prune_tasks:
  "map extracted (filter isTask (itemsOf (prune f))) = map extracted (filter isTask (itemsOf f))"
proof (induction f rule: itemsOf.induct)
  case 1
  then show ?case by simp
next
  case (2 d cs rest)
  show ?case
  proof (cases "containsTask [HierarchyItem d cs]")
    case True
    with 2 show ?thesis by (auto simp: extracted_def isTask_def)
  next
    case False
    then have nt: "\<not> isTask (HierarchyItem d cs)" and "\<not> containsTask cs"
      by (simp_all add: isTask_def)
    then have "filter isTask (itemsOf cs) = []"
      by (auto simp: containsTask_itemsOf filter_empty_conv)
    with False 2 nt show ?thesis by simp
  qed
qed

lemma isTask_item [simp]: "isTask (HierarchyItem d cs) = (item_type d = Task)"
  by (simp add: isTask_def)

lemma tooWide_Nil [simp]: "tooWide L [] = False"
  by (simp add: tooWide_def)

lemma tooWide_Cons:
  "tooWide L (HierarchyItem d cs # rest) \<longleftrightarrow>
     (cs \<noteq> [] \<and> L < length (filter isTask (itemsOf cs))) \<or> tooWide L cs \<or> tooWide L rest"
  by (auto simp: tooWide_def descendantTasks_def list_ex_iff)

lemma collectTasks_result:
  "collectTasks L f = (if tooWide L f then Inl RangeError else Inr (filter isTask (itemsOf f)))"
proof (induction f rule: itemsOf.induct)
  case 1
  then show ?case by simp
next
  case (2 d cs rest)
  then show ?case
    by (cases "cs = []") (auto simp: tooWide_Cons)
qed

lemma collectTasks_eq: "collectTasks L f = Inr ts \<Longrightarrow> ts = filter isTask (itemsOf f)"
  by (simp add: collectTasks_result split: if_splits)


lemma calc_Nil: "calculateAggregatedStatus L f = Inr [] \<longleftrightarrow> f = []"
  by (cases f rule: itemsOf.cases) (auto split: sum.splits if_splits)




lemma countState_total:
  "stateTotal (countState d c) =
     stateTotal c + (if item_type d = Task \<and> state d \<noteq> None then 1 else 0)"
  by (auto simp: countState_def stateTotal_def split: option.splits TaskState.splits)

lemma countTasks_total:
  "stateTotal (countTasks f c) =
     stateTotal c + length (filter (\<lambda>n. isTask n \<and> state (props n) \<noteq> None) (itemsOf f))"
proof (induction f arbitrary: c rule: itemsOf.induct)
  case 1
  then show ?case by simp
next
  case (2 d cs rest)
  show ?case
    by (cases "cs = []") (simp_all add: Let_def 2 countState_total isTask_def)
qed

section \<open>The store read as a forest\<close>

lemma children_filter:
  "filter (\<lambda>c. nearestSmaller fl c = Some k) [0..<n] =
   filter (\<lambda>c. nearestSmaller fl c = Some k) [Suc k..<n]"
proof -
  have no: "nearestSmaller fl c \<noteq> Some k" if "c \<le> k" for c
    using that nearestSmaller_less [of fl c k] by auto
  show ?thesis
  proof (cases "Suc k \<le> n")
    case True
    then have "[0..<n] = [0..<Suc k] @ [Suc k..<n]"
      by (metis le_add_diff_inverse upt_add_eq_append zero_le)
    moreover have "filter (\<lambda>c. nearestSmaller fl c = Some k) [0..<Suc k] = []"
      using no by (simp add: filter_empty_conv del: upt_Suc)
    ultimately show ?thesis by (simp del: upt_Suc)
  next
    case False
    then have "filter (\<lambda>c. nearestSmaller fl c = Some k) [0..<n] = []"
      using no by (simp add: filter_empty_conv)
    with False show ?thesis by simp
  qed
qed

lemma readItems_treeOf:
  assumes arrs: "\<And>k. arrs (ChildrenOf k) = filter (\<lambda>c. nearestSmaller fl c = Some k) [0..<length fl]"
  shows "(\<forall>k \<in> set ks. k < length fl \<and> length fl - k \<le> fuel) \<Longrightarrow>
           readItems fuel arrs fl ks = Some (map (treeOf fl) ks)"
proof (induction fuel arbitrary: ks)
  case 0
  then show ?case by (cases ks) auto
next
  case (Suc fuel)
  from Suc.prems show ?case
  proof (induction ks)
    case Nil
    then show ?case by simp
  next
    case (Cons k ks)
    have "\<forall>c \<in> set (arrs (ChildrenOf k)). c < length fl \<and> length fl - c \<le> fuel"
      using Cons.prems by (auto simp: arrs children_filter)
    then have cs: "readItems fuel arrs fl (arrs (ChildrenOf k)) = Some (map (treeOf fl) (arrs (ChildrenOf k)))"
      by (rule Suc.IH)
    have rest: "readItems (Suc fuel) arrs fl ks = Some (map (treeOf fl) ks)"
      using Cons by simp
    have "treeOf fl k = HierarchyItem (props (fst (fl ! k))) (map (treeOf fl) (arrs (ChildrenOf k)))"
      by (subst treeOf.simps) (simp add: arrs children_filter)
    with cs rest show ?case by simp
  qed
qed

lemma readItems_buildHierarchy:
  "readItems (length fl) (buildHierarchy fl) fl (buildHierarchy fl RootArray) =
     Some (map (treeOf fl) (filter (\<lambda>k. nearestSmaller fl k = None) [0..<length fl]))"
proof -
  have "readItems (length fl) (buildHierarchy fl) fl (buildHierarchy fl RootArray) =
     Some (map (treeOf fl) (buildHierarchy fl RootArray))"
    by (rule readItems_treeOf) (auto simp: buildHierarchy_arrays)
  then show ?thesis by (simp add: buildHierarchy_arrays)
qed

lemma itemsOf_Cons: "itemsOf (x # xs) = itemsOf [x] @ itemsOf xs"
  by (cases x) simp

lemma sum_list_filter_disj:
  fixes f :: "'a \<Rightarrow> 'b::comm_monoid_add"
  shows "(\<forall>x \<in> set xs. \<not> (P x \<and> Q x)) \<Longrightarrow>
     sum_list (map f (filter (\<lambda>x. P x \<or> Q x) xs)) =
     sum_list (map f (filter P xs)) + sum_list (map f (filter Q xs))"
  by (induction xs) (auto simp: ac_simps)

lemma nodes_forest:
  "image_mset props (mset (itemsOf (map (treeOf fl) ks))) = sum_list (map (nodesBelow fl) ks)"
proof (induction ks)
  case Nil
  then show ?case by simp
next
  case (Cons k ks)
  have "itemsOf (treeOf fl k # map (treeOf fl) ks) = itemsOf [treeOf fl k] @ itemsOf (map (treeOf fl) ks)"
    by (rule itemsOf_Cons)
  with Cons show ?case by (simp add: nodesBelow_def)
qed

lemma nodesBelow_unfold:
  "nodesBelow fl k =
     {#props (fst (fl ! k))#} +
     sum_list (map (nodesBelow fl) (filter (\<lambda>c. nearestSmaller fl c = Some k) [Suc k..<length fl]))"
proof -
  let ?cs = "filter (\<lambda>c. nearestSmaller fl c = Some k) [Suc k..<length fl]"
  have t: "treeOf fl k = HierarchyItem (props (fst (fl ! k))) (map (treeOf fl) ?cs)"
    by (subst treeOf.simps) simp
  have io: "itemsOf [x] = x # itemsOf (children x)" for x
    by (cases x) simp
  have ch: "children (treeOf fl k) = map (treeOf fl) ?cs"
    by (subst t) simp
  have "itemsOf [treeOf fl k] = treeOf fl k # itemsOf (map (treeOf fl) ?cs)"
    using io [of "treeOf fl k"] by (simp only: ch)
  moreover have "props (treeOf fl k) = props (fst (fl ! k))"
    by (subst t) simp
  ultimately have "nodesBelow fl k =
      {#props (fst (fl ! k))#} + image_mset props (mset (itemsOf (map (treeOf fl) ?cs)))"
    by (simp add: nodesBelow_def)
  then show ?thesis by (simp only: nodes_forest)
qed

lemma exposed_step:
  assumes "j < length fl"
  shows "sum_list (map (nodesBelow fl) (filter (exposed fl j) [j..<length fl])) =
         {#props (fst (fl ! j))#} +
         sum_list (map (nodesBelow fl) (filter (exposed fl (Suc j)) [Suc j..<length fl]))"
proof -
  let ?n = "length fl"
  have ej: "exposed fl j j"
    by (auto simp: exposed_def split: option.splits dest: nearestSmaller_less)
  have spl: "exposed fl (Suc j) k \<longleftrightarrow> exposed fl j k \<or> nearestSmaller fl k = Some j" for k
    by (auto simp: exposed_def less_Suc_eq split: option.splits)
  have disj: "\<forall>k \<in> set [Suc j..<?n]. \<not> (exposed fl j k \<and> nearestSmaller fl k = Some j)"
    by (auto simp: exposed_def)
  have "filter (exposed fl (Suc j)) [Suc j..<?n] =
        filter (\<lambda>k. exposed fl j k \<or> nearestSmaller fl k = Some j) [Suc j..<?n]"
    by (rule filter_cong) (simp_all add: spl)
  then have "sum_list (map (nodesBelow fl) (filter (exposed fl (Suc j)) [Suc j..<?n])) =
        sum_list (map (nodesBelow fl) (filter (exposed fl j) [Suc j..<?n])) +
        sum_list (map (nodesBelow fl) (filter (\<lambda>k. nearestSmaller fl k = Some j) [Suc j..<?n]))"
    using sum_list_filter_disj [OF disj, of "nodesBelow fl"] by simp
  moreover have "[j..<?n] = j # [Suc j..<?n]"
    using assms by (simp add: upt_conv_Cons)
  moreover note nodesBelow_unfold [of fl j]
  ultimately show ?thesis
    using ej by (simp add: ac_simps)
qed

lemma exposed_all:
  "j \<le> length fl \<Longrightarrow>
     sum_list (map (nodesBelow fl) (filter (exposed fl j) [j..<length fl])) =
     image_mset (props \<circ> fst) (mset (drop j fl))"
proof (induction "length fl - j" arbitrary: j)
  case 0
  then show ?case by simp
next
  case (Suc d)
  then have j: "j < length fl" and d: "d = length fl - Suc j" by simp_all
  have "drop j fl = fl ! j # drop (Suc j) fl"
    using j by (simp add: Cons_nth_drop_Suc)
  moreover have "sum_list (map (nodesBelow fl) (filter (exposed fl (Suc j)) [Suc j..<length fl])) =
     image_mset (props \<circ> fst) (mset (drop (Suc j) fl))"
    using Suc.hyps(1) [OF d] j by simp
  ultimately show ?case
    using exposed_step [OF j] by simp
qed

lemma treeOf_nodes:
  "image_mset props (mset (itemsOf (map (treeOf fl) (filter (\<lambda>k. nearestSmaller fl k = None) [0..<length fl])))) =
   image_mset (props \<circ> fst) (mset fl)"
proof -
  have "filter (\<lambda>k. nearestSmaller fl k = None) [0..<length fl] = filter (exposed fl 0) [0..<length fl]"
    by (rule filter_cong) (auto simp: exposed_def split: option.splits)
  then show ?thesis
    using exposed_all [of 0 fl] by (simp only: nodes_forest drop_0)
qed

text \<open>
  Claim C2. In the store that \<open>buildHierarchy\<close> returns, the root array holds exactly the
  items that have no earlier item of strictly smaller level, and the \<open>children\<close> array of
  item \<open>p\<close> holds exactly the items whose nearest earlier item of strictly smaller level
  is \<open>p\<close>. Every array lists its items in increasing position, that is in document order,
  and each item once. Read from the returned root, the object graph is a finite forest: the
  trees \<open>treeOf\<close> of the root items, in which the children of an item are the trees of the
  items it is the nearest smaller predecessor of.
\<close>

theorem buildHierarchy_parents:
  "buildHierarchy flatItems RootArray =
     filter (\<lambda>k. nearestSmaller flatItems k = None) [0..<length flatItems] \<and>
   buildHierarchy flatItems (ChildrenOf p) =
     filter (\<lambda>k. nearestSmaller flatItems k = Some p) [0..<length flatItems] \<and>
   readItems (length flatItems) (buildHierarchy flatItems) flatItems (buildHierarchy flatItems RootArray) =
     Some (map (treeOf flatItems) (buildHierarchy flatItems RootArray))"
  using buildHierarchy_arrays [of flatItems p] readItems_buildHierarchy [of flatItems]
  by simp

theorem buildHierarchy_parents_witness:
  "buildHierarchy sampleFlat RootArray = [0, 4] \<and>
   buildHierarchy sampleFlat (ChildrenOf 0) = [1, 3] \<and>
   map (map (item_text \<circ> props) \<circ> children)
     (the (readItems (length sampleFlat) (buildHierarchy sampleFlat) sampleFlat
             (buildHierarchy sampleFlat RootArray))) =
     [[''compile'', ''test''], [''tag'']]"
proof -
  have a: "filter (\<lambda>k. nearestSmaller sampleFlat k = None) [0..<length sampleFlat] = [0, 4]"
    by code_simp
  have b: "filter (\<lambda>k. nearestSmaller sampleFlat k = Some 0) [0..<length sampleFlat] = [1, 3]"
    by code_simp
  have c: "map (map (item_text \<circ> props) \<circ> children)
              (map (treeOf sampleFlat) [0, 4]) = [[''compile'', ''test''], [''tag'']]"
    by code_simp
  note t = buildHierarchy_parents [of sampleFlat 0]
  have r: "buildHierarchy sampleFlat RootArray = [0, 4]"
    by (rule trans [OF t [THEN conjunct1] a])
  have ch: "buildHierarchy sampleFlat (ChildrenOf 0) = [1, 3]"
    by (rule trans [OF t [THEN conjunct2, THEN conjunct1] b])
  note rd = t [THEN conjunct2, THEN conjunct2, unfolded r]
  show ?thesis
    unfolding r rd using ch c by simp
qed

text \<open>
  Claim C3. For every forest, marking and then filtering yields exactly the pruned forest:
  a node is kept iff its subtree (the node included) contains a task, the kept nodes are
  the original nodes in their original order, kept children stay below their kept parent,
  and every kept node carries \<open>hasTaskDescendants = true\<close> and a task in its subtree.
\<close>

theorem filter_mark_exact:
  "filterTaskBranches (fst (markTaskDescendants forest)) = prune forest \<and>
   map extracted (itemsOf (filterTaskBranches (fst (markTaskDescendants forest)))) =
     map extracted (filter (\<lambda>n. containsTask [n]) (itemsOf forest)) \<and>
   (\<forall>n \<in> set (itemsOf (filterTaskBranches (fst (markTaskDescendants forest)))).
      hasTaskDescendants (props n) = Some True \<and> containsTask [n])"
  using prune_flags [of _ forest] by (simp add: filter_mark_prune prune_survivors)

theorem filter_mark_exact_witness:
  "map (item_text \<circ> props) (itemsOf (filterTaskBranches (fst (markTaskDescendants sampleForest)))) =
     [''Build'', ''compile'', ''test''] \<and>
   taskItem ''test'' Blocked 5 3 \<in> set (itemsOf sampleForest) \<and>
   hasTaskDescendants (props (hd (filterTaskBranches (fst (markTaskDescendants sampleForest))))) = Some True"
proof -
  have a: "prune sampleForest =
     [HierarchyItem ((props (headingItem ''Build'' 2 2))\<lparr>hasTaskDescendants := Some True\<rparr>)
        [HierarchyItem ((props (taskItem ''compile'' Done 3 3))\<lparr>hasTaskDescendants := Some True\<rparr>) [],
         HierarchyItem ((props (taskItem ''test'' Blocked 5 3))\<lparr>hasTaskDescendants := Some True\<rparr>) []]]"
    by (simp add: sampleForest_def headingItem_def taskItem_def)
  have b: "taskItem ''test'' Blocked 5 3 \<in> set (itemsOf sampleForest)"
    by (simp add: sampleForest_def headingItem_def taskItem_def)
  show ?thesis
    using filter_mark_exact [of sampleForest] a b
    by (simp add: headingItem_def taskItem_def)
qed

section \<open>Properties of parsePlan\<close>

lemma headingStep_cases:
  "headingStep tokens path i flat = flat \<or>
   (\<exists>e. headingStep tokens path i flat = flat @ [e] \<and> wellExtracted e \<and>
        item_type (props (fst e)) = Heading \<and> tok_type (tokens ! i) = ''heading_open'')"
  by (force simp: headingStep_def Let_def wellExtracted_def split: option.splits)

lemma taskStep_cases:
  "taskStep tokens path i depth flat = flat \<or>
   (\<exists>e. taskStep tokens path i depth flat = flat @ [e] \<and> wellExtracted e \<and>
        item_type (props (fst e)) = Task \<and> tok_type (tokens ! i) = ''list_item_open'' \<and>
        snd e = lastHeadingLevel flat (length flat) + depth)"
  by (force simp: taskStep_def Let_def wellExtracted_def split: option.splits prod.splits)

lemma extractLoop_Suc:
  "extractLoop tokens path (Suc m) = extractStep tokens path m (extractLoop tokens path m)"
  by (simp add: extractLoop_def)

lemma extractStep_wellExtracted:
  "\<forall>e \<in> set (fst s). wellExtracted e \<Longrightarrow>
   \<forall>e \<in> set (fst (extractStep tokens path i s)). wellExtracted e"
  using headingStep_cases [of tokens path i "fst s"]
    taskStep_cases [of tokens path i "depthStep (tokens ! i) (snd s)" "headingStep tokens path i (fst s)"]
  by (auto simp: extractStep_def Let_def)

lemma extractLoop_wellExtracted:
  "\<forall>e \<in> set (fst (extractLoop tokens path m)). wellExtracted e"
proof (induction m)
  case 0
  then show ?case by (simp add: extractLoop_def)
next
  case (Suc m)
  then show ?case
    unfolding extractLoop_Suc by (rule extractStep_wellExtracted)
qed

lemma extractItems_wellExtracted: "e \<in> set (extractItems tokens path) \<Longrightarrow> wellExtracted e"
  using extractLoop_wellExtracted by (simp add: extractItems_def)

lemma parsePlan_unfold:
  "parsePlan L md content path =
     (case calculateAggregatedStatus L (prune (builtForest (extractItems (md content) path))) of
        Inl e \<Rightarrow> Inl e
      | Inr hierarchical \<Rightarrow>
          Inr \<lparr>title = (if firstLineOf content \<noteq> [] then firstLineOf content else ''Untitled Plan''),
               subtitle = fileNameOf path,
               filePath = path,
               tasks = hierarchical,
               totalCount = length (filter (\<lambda>e. item_type (props (fst e)) = Task)
                                      (extractItems (md content) path)),
               stateCount = countTasks hierarchical
                              \<lparr>n_pending = 0, n_done = 0, n_inProgress = 0, n_blocked = 0\<rparr>\<rparr>)"
  by (cases "calculateAggregatedStatus L (prune (builtForest (extractItems (md content) path)))")
     (simp_all add: parsePlan_def Let_def readItems_buildHierarchy filter_mark_prune builtForest_def)

lemma parsePlan_Inr:
  assumes "parsePlan L md content path = Inr plan"
  shows "calculateAggregatedStatus L (prune (builtForest (extractItems (md content) path))) = Inr (tasks plan)"
    and "totalCount plan =
           length (filter (\<lambda>e. item_type (props (fst e)) = Task) (extractItems (md content) path))"
    and "stateCount plan =
           countTasks (tasks plan) \<lparr>n_pending = 0, n_done = 0, n_inProgress = 0, n_blocked = 0\<rparr>"
  using assms by (auto simp: parsePlan_unfold split: sum.splits)

lemma calc_extracted:
  "calculateAggregatedStatus L f = Inr r \<Longrightarrow> map extracted (itemsOf r) = map extracted (itemsOf f)"
proof (induction f arbitrary: r rule: itemsOf.induct)
  case 1
  then show ?case by simp
next
  case (2 d cs rest)
  then show ?case
    by (cases "cs = []") (auto simp: extracted_def split: sum.splits)
qed

lemma filter_isTask_extracted:
  "map extracted (filter isTask xs) = filter (\<lambda>d. item_type d = Task) (map extracted xs)"
  by (induction xs) (auto simp: isTask_def extracted_def)

lemma final_tasks:
  assumes "calculateAggregatedStatus L (prune f) = Inr r"
  shows "map extracted (filter isTask (itemsOf r)) = map extracted (filter isTask (itemsOf f))"
proof -
  have "map extracted (filter isTask (itemsOf r)) = map extracted (filter isTask (itemsOf (prune f)))"
    by (simp only: filter_isTask_extracted calc_extracted [OF assms])
  then show ?thesis by (simp only: prune_tasks)
qed

lemma builtForest_nodes:
  "image_mset props (mset (itemsOf (builtForest flat))) = image_mset (props \<circ> fst) (mset flat)"
  by (simp add: builtForest_def treeOf_nodes)

lemma reset_id:
  "aggregatedStatus d = None \<Longrightarrow> hasTaskDescendants d = None \<Longrightarrow>
     d\<lparr>aggregatedStatus := None, hasTaskDescendants := None\<rparr> = (d::ItemFields)"
  by (cases d) simp

lemma builtForest_extracted:
  assumes "\<forall>e \<in> set flat. wellExtracted e"
  shows "image_mset extracted (mset (itemsOf (builtForest flat))) = image_mset (props \<circ> fst) (mset flat)"
proof -
  let ?r = "\<lambda>d::ItemFields. d\<lparr>aggregatedStatus := None, hasTaskDescendants := None\<rparr>"
  have "image_mset extracted (mset (itemsOf (builtForest flat))) =
        image_mset ?r (image_mset props (mset (itemsOf (builtForest flat))))"
    by (auto simp: multiset.map_comp o_def extracted_def intro!: image_mset_cong)
  also have "\<dots> = image_mset ?r (image_mset (props \<circ> fst) (mset flat))"
    by (simp only: builtForest_nodes)
  also have "\<dots> = image_mset (props \<circ> fst) (mset flat)"
  proof -
    have "?r (props (fst e)) = props (fst e)" if "e \<in> set flat" for e
      using assms that by (intro reset_id) (simp_all add: wellExtracted_def)
    then show ?thesis
      by (auto simp: multiset.map_comp o_def intro!: image_mset_cong)
  qed
  finally show ?thesis .
qed

lemma final_task_multiset:
  assumes "\<forall>e \<in> set flat. wellExtracted e"
    and calc: "calculateAggregatedStatus L (prune (builtForest flat)) = Inr r"
  shows "mset (map extracted (filter isTask (itemsOf r))) =
         mset (map (props \<circ> fst) (filter (\<lambda>e. item_type (props (fst e)) = Task) flat))"
proof -
  have "mset (map extracted (filter isTask (itemsOf r))) =
        mset (map extracted (filter isTask (itemsOf (builtForest flat))))"
    by (simp only: final_tasks [OF calc])
  also have "\<dots> = mset (filter (\<lambda>d. item_type d = Task) (map extracted (itemsOf (builtForest flat))))"
    by (simp only: filter_isTask_extracted)
  also have "\<dots> = filter_mset (\<lambda>d. item_type d = Task) (image_mset extracted (mset (itemsOf (builtForest flat))))"
    by simp
  also have "\<dots> = filter_mset (\<lambda>d. item_type d = Task) (image_mset (props \<circ> fst) (mset flat))"
    by (simp only: builtForest_extracted [OF assms(1)])
  also have "\<dots> = mset (map (props \<circ> fst) (filter (\<lambda>e. item_type (props (fst e)) = Task) flat))"
    by (induction flat) auto
  finally show ?thesis .
qed

lemma final_tasks_have_state:
  assumes we: "\<forall>e \<in> set flat. wellExtracted e"
    and calc: "calculateAggregatedStatus L (prune (builtForest flat)) = Inr r"
    and n: "n \<in> set (itemsOf r)"
    and t: "isTask n"
  shows "state (props n) \<noteq> None"
proof -
  have "extracted n \<in> set (map extracted (filter isTask (itemsOf r)))"
    using n t by simp
  then have "extracted n \<in># mset (map (props \<circ> fst) (filter (\<lambda>e. item_type (props (fst e)) = Task) flat))"
    by (simp only: final_task_multiset [OF we calc, symmetric] set_mset_mset)
  then obtain e where e: "e \<in> set flat" "item_type (props (fst e)) = Task" "extracted n = props (fst e)"
    by auto
  with we have "state (props (fst e)) \<noteq> None" by (auto simp: wellExtracted_def)
  moreover have "state (extracted n) = state (props n)" by (simp add: extracted_def)
  ultimately show ?thesis using e(3) by simp
qed

subsection \<open>When the aggregation raises\<close>

lemma calc_task_count:
  assumes "calculateAggregatedStatus L f = Inr r"
  shows "length (filter isTask (itemsOf r)) = length (filter isTask (itemsOf f))"
proof -
  have "length (map extracted (filter isTask (itemsOf r))) = length (map extracted (filter isTask (itemsOf f)))"
    by (simp only: filter_isTask_extracted calc_extracted [OF assms])
  then show ?thesis by simp
qed

lemma calc_tooWide:
  "calculateAggregatedStatus L f = Inr r \<Longrightarrow> tooWide L r = tooWide L f"
proof (induction f arbitrary: r rule: itemsOf.induct)
  case 1
  then show ?case by simp
next
  case (2 d cs rest)
  show ?case
  proof (cases "cs = []")
    case True
    with 2 show ?thesis by (auto simp: tooWide_Cons split: sum.splits)
  next
    case False
    with 2 show ?thesis
      by (auto simp: tooWide_Cons calc_task_count calc_Nil split: sum.splits)
  qed
qed

lemma spreadOverflow_Nil [simp]: "spreadOverflow L [] = False"
  by (simp add: spreadOverflow_def)

lemma spreadOverflow_Cons:
  "spreadOverflow L (HierarchyItem d cs # rest) \<longleftrightarrow>
     tooWide L cs \<or> spreadOverflow L cs \<or> spreadOverflow L rest"
  by (auto simp: spreadOverflow_def list_ex_iff)

lemma calc_result:
  "(spreadOverflow L f \<longrightarrow> calculateAggregatedStatus L f = Inl RangeError) \<and>
   (\<not> spreadOverflow L f \<longrightarrow> (\<exists>r. calculateAggregatedStatus L f = Inr r))"
proof (induction f rule: itemsOf.induct)
  case 1
  then show ?case by simp
next
  case (2 d cs rest)
  show ?case
  proof (cases "cs = []")
    case True
    with 2 show ?thesis by (auto simp: spreadOverflow_Cons split: sum.splits)
  next
    case False
    show ?thesis
    proof (cases "spreadOverflow L cs")
      case True
      with 2 False show ?thesis by (simp add: spreadOverflow_Cons)
    next
      case no: False
      with 2 obtain cs' where cs': "calculateAggregatedStatus L cs = Inr cs'" by auto
      have tw: "tooWide L cs' = tooWide L cs" by (rule calc_tooWide [OF cs'])
      show ?thesis
      proof (cases "tooWide L cs")
        case True
        with False cs' tw show ?thesis
          by (simp add: spreadOverflow_Cons collectDescendantTasks_def collectTasks_result)
      next
        case False
        with \<open>cs \<noteq> []\<close> cs' tw no 2 show ?thesis
          by (auto simp: spreadOverflow_Cons collectDescendantTasks_def collectTasks_result
                   split: sum.splits)
      qed
    qed
  qed
qed

lemma parsePlan_result:
  "(spreadOverflow L (prune (builtForest (extractItems (md content) path))) \<longrightarrow>
      parsePlan L md content path = Inl RangeError) \<and>
   (\<not> spreadOverflow L (prune (builtForest (extractItems (md content) path))) \<longrightarrow>
      (\<exists>plan. parsePlan L md content path = Inr plan))"
  using calc_result [of L "prune (builtForest (extractItems (md content) path))"]
  by (auto simp: parsePlan_unfold)

lemma itemsOf_children:
  "n \<in> set (itemsOf f) \<Longrightarrow> c \<in> set (itemsOf (children n)) \<Longrightarrow> c \<in> set (itemsOf f)"
  by (induction f rule: itemsOf.induct) auto

lemma descendantTasks_le:
  "c \<in> set (itemsOf f) \<Longrightarrow> length (descendantTasks c) \<le> length (filter isTask (itemsOf f))"
proof (induction f rule: itemsOf.induct)
  case 1
  then show ?case by simp
next
  case (2 d cs rest)
  then show ?case
    by (auto simp: descendantTasks_def intro: le_SucI trans_le_add1 trans_le_add2)
qed

lemma few_tasks_no_overflow:
  assumes "length (filter isTask (itemsOf f)) \<le> L"
  shows "\<not> spreadOverflow L f"
proof
  assume "spreadOverflow L f"
  then obtain n c where n: "n \<in> set (itemsOf f)" and c: "c \<in> set (itemsOf (children n))"
    and w: "L < length (descendantTasks c)"
    by (auto simp: spreadOverflow_def tooWide_def list_ex_iff)
  from itemsOf_children [OF n c] have "length (descendantTasks c) \<le> length (filter isTask (itemsOf f))"
    by (rule descendantTasks_le)
  with w assms show False by simp
qed

lemma parsePlan_returns:
  assumes "length (filter (\<lambda>e. item_type (props (fst e)) = Task) (extractItems (md content) path)) \<le> L"
  shows "\<exists>plan. parsePlan L md content path = Inr plan"
proof -
  let ?flat = "extractItems (md content) path"
  have we: "\<forall>e \<in> set ?flat. wellExtracted e"
    by (simp add: extractItems_wellExtracted)
  have "length (filter isTask (itemsOf (prune (builtForest ?flat)))) =
        length (map extracted (filter isTask (itemsOf (builtForest ?flat))))"
    using prune_tasks [of "builtForest ?flat"] by (metis length_map)
  also have "\<dots> = size (filter_mset (\<lambda>d. item_type d = Task)
                       (image_mset extracted (mset (itemsOf (builtForest ?flat)))))"
    by (simp only: filter_isTask_extracted) (simp flip: mset_filter mset_map)
  also have "\<dots> = size (filter_mset (\<lambda>d. item_type d = Task) (image_mset (props \<circ> fst) (mset ?flat)))"
    by (simp only: builtForest_extracted [OF we])
  also have "\<dots> = length (filter (\<lambda>e. item_type (props (fst e)) = Task) ?flat)"
  proof -
    have "size (filter_mset (\<lambda>d. item_type d = Task) (image_mset (props \<circ> fst) (mset fl))) =
          length (filter (\<lambda>e. item_type (props (fst e)) = Task) fl)" for fl :: "FlatItem list"
      by (induction fl) auto
    then show ?thesis .
  qed
  finally have "\<not> spreadOverflow L (prune (builtForest ?flat))"
    using assms by (intro few_tasks_no_overflow) simp
  then show ?thesis
    using parsePlan_result [of L md content path] by simp
qed

subsection \<open>The returned plan\<close>

text \<open>
  Claim C9. The \<open>totalCount\<close> of the returned plan is the number of entries of kind Task
  in the extractor's flat output, before the hierarchy is built and filtered: each position
  holding a task counts once, and positions holding headings do not count.
\<close>

theorem parsePlan_totalCount:
  "parsePlan maxArgs md content path = Inr plan \<Longrightarrow>
     totalCount plan =
       length (filter (\<lambda>e. item_type (props (fst e)) = Task) (extractItems (md content) path)) \<and>
     totalCount plan =
       card {j. j < length (extractItems (md content) path) \<and>
                item_type (props (fst (extractItems (md content) path ! j))) = Task}"
  by (auto simp: parsePlan_Inr(2) length_filter_conv_card)

text \<open>
  Claim C10. The tasks of the final tree are, as a multiset of extracted fields, exactly the
  Task entries of the extractor's flat output: the branch filter removes no task. Hence the
  four counters of the histogram, counted over the final tree, add up to \<open>totalCount\<close>,
  counted over the flat output.
\<close>

theorem parsePlan_keeps_tasks:
  assumes "parsePlan maxArgs md content path = Inr plan"
  shows "mset (map extracted (filter isTask (itemsOf (tasks plan)))) =
           mset (map (props \<circ> fst)
                  (filter (\<lambda>e. item_type (props (fst e)) = Task) (extractItems (md content) path))) \<and>
         n_pending (stateCount plan) + n_done (stateCount plan) +
           n_inProgress (stateCount plan) + n_blocked (stateCount plan) = totalCount plan"
proof -
  let ?flat = "extractItems (md content) path"
  let ?T = "tasks plan"
  have we: "\<forall>e \<in> set ?flat. wellExtracted e"
    by (simp add: extractItems_wellExtracted)
  note calc = parsePlan_Inr(1) [OF assms]
  note tc = parsePlan_Inr(2) [OF assms]
  note c = parsePlan_Inr(3) [OF assms]
  have ms: "mset (map extracted (filter isTask (itemsOf ?T))) =
            mset (map (props \<circ> fst) (filter (\<lambda>e. item_type (props (fst e)) = Task) ?flat))"
    by (rule final_task_multiset [OF we calc])
  have f: "filter (\<lambda>n. isTask n \<and> state (props n) \<noteq> None) (itemsOf ?T) = filter isTask (itemsOf ?T)"
    by (rule filter_cong) (auto dest: final_tasks_have_state [OF we calc])
  have "stateTotal (stateCount plan) = length (filter isTask (itemsOf ?T))"
    unfolding c countTasks_total f by (simp add: stateTotal_def)
  also have "\<dots> = size (mset (map extracted (filter isTask (itemsOf ?T))))"
    by (simp only: size_mset length_map)
  also have "\<dots> = totalCount plan"
    by (simp only: ms tc size_mset length_map)
  finally show ?thesis
    using ms by (simp add: stateTotal_def)
qed


section \<open>Properties of the extractor\<close>

lemma depthStep_depthAfter:
  "depthStep t (depthAfter ts) = depthAfter (ts @ [t])"
  by (auto simp: depthStep_def depthAfter_def isListOpen_def isListClose_def Let_def)

lemma extractLoop_depth:
  "m \<le> length tokens \<Longrightarrow> snd (extractLoop tokens path m) = depthAfter (take m tokens)"
proof (induction m)
  case 0
  then show ?case by (simp add: extractLoop_def depthAfter_def)
next
  case (Suc m)
  then have "take (Suc m) tokens = take m tokens @ [tokens ! m]"
    by (simp add: take_Suc_conv_app_nth)
  with Suc show ?case
    by (simp add: extractLoop_Suc extractStep_def Let_def depthStep_depthAfter)
qed

lemma lastHeadingLevel_take:
  "j \<le> length flat \<Longrightarrow> lastHeadingLevel flat j = nearestHeadingLevel (take j flat)"
proof (induction j)
  case 0
  then show ?case by (simp add: nearestHeadingLevel_def)
next
  case (Suc j)
  then have "take (Suc j) flat = take j flat @ [flat ! j]"
    by (simp add: take_Suc_conv_app_nth)
  with Suc show ?case
    by (simp add: nearestHeadingLevel_def isHeadingEntry_def)
qed

lemma lastHeadingLevel_eq: "lastHeadingLevel flat (length flat) = nearestHeadingLevel flat"
  by (simp add: lastHeadingLevel_take)

lemma extractStep_shape:
  "fst (extractStep tokens path i s) = fst s \<or>
   (\<exists>e. fst (extractStep tokens path i s) = fst s @ [e] \<and>
        (item_type (props (fst e)) = Task \<longrightarrow>
           tok_type (tokens ! i) = ''list_item_open'' \<and>
           snd e = nearestHeadingLevel (fst s) + depthStep (tokens ! i) (snd s) \<and>
           level (props (fst e)) = snd e))"
proof -
  let ?d = "depthStep (tokens ! i) (snd s)"
  let ?f1 = "headingStep tokens path i (fst s)"
  from headingStep_cases [of tokens path i "fst s"]
  consider (same) "?f1 = fst s"
    | (heading) e where "?f1 = fst s @ [e]" "item_type (props (fst e)) = Heading"
        "tok_type (tokens ! i) = ''heading_open''"
    by auto
  then show ?thesis
  proof cases
    case same
    from taskStep_cases [of tokens path i ?d "fst s"]
    show ?thesis
      by (auto simp: extractStep_def Let_def same lastHeadingLevel_eq wellExtracted_def)
  next
    case heading
    then have "taskStep tokens path i ?d ?f1 = ?f1"
      by (simp add: taskStep_def)
    with heading show ?thesis
      by (auto simp: extractStep_def Let_def)
  qed
qed

lemma extractLoop_origin:
  "j < length (fst (extractLoop tokens path m)) \<Longrightarrow>
     \<exists>i<m. fst (extractLoop tokens path i) = take j (fst (extractLoop tokens path m)) \<and>
           fst (extractLoop tokens path (Suc i)) = take (Suc j) (fst (extractLoop tokens path m))"
proof (induction m)
  case 0
  then show ?case by (simp add: extractLoop_def)
next
  case (Suc m)
  let ?F = "fst (extractLoop tokens path m)"
  let ?F' = "fst (extractLoop tokens path (Suc m))"
  from extractStep_shape [of tokens path m "extractLoop tokens path m"]
  obtain new where new: "?F' = ?F @ new" and len: "length new \<le> 1"
    by (auto simp: extractLoop_Suc)
  show ?case
  proof (cases "j < length ?F")
    case True
    from Suc.IH [OF True] obtain i where i: "i < m"
      "fst (extractLoop tokens path i) = take j ?F"
      "fst (extractLoop tokens path (Suc i)) = take (Suc j) ?F" by auto
    from True have "take j ?F' = take j ?F" "take (Suc j) ?F' = take (Suc j) ?F"
      by (simp_all add: new)
    with i show ?thesis by (intro exI [of _ i]) simp
  next
    case False
    with Suc.prems new len have "j = length ?F" "length ?F' = Suc j"
      by auto
    then have "take j ?F' = ?F" "take (Suc j) ?F' = ?F'"
      by (simp_all add: new)
    then show ?thesis by (intro exI [of _ m]) simp
  qed
qed

text \<open>
  Claim C5. Every Task entry of the extractor's output was appended while the extractor
  handled some \<open>list_item_open\<close> token \<open>i\<close>, the output at that moment being the entries
  before it, and its level is the level of the nearest Heading entry emitted before it, 0
  when there is none, plus the list nesting depth at token \<open>i\<close>. In particular a task with
  no heading before it has level 0 plus that depth.
\<close>

theorem extract_task_level:
  assumes j: "j < length (extractItems tokens path)"
    and t: "item_type (props (fst (extractItems tokens path ! j))) = Task"
  shows "\<exists>i < length tokens.
           tok_type (tokens ! i) = ''list_item_open'' \<and>
           fst (extractLoop tokens path i) = take j (extractItems tokens path) \<and>
           fst (extractLoop tokens path (Suc i)) = take (Suc j) (extractItems tokens path) \<and>
           snd (extractItems tokens path ! j) =
             nearestHeadingLevel (take j (extractItems tokens path)) + nestingDepth tokens i \<and>
           level (props (fst (extractItems tokens path ! j))) = snd (extractItems tokens path ! j) \<and>
           (filter isHeadingEntry (take j (extractItems tokens path)) = [] \<longrightarrow>
              snd (extractItems tokens path ! j) = 0 + nestingDepth tokens i)"
proof -
  let ?out = "extractItems tokens path"
  from extractLoop_origin [of j tokens path "length tokens"] j
  obtain i where i: "i < length tokens"
    and before: "fst (extractLoop tokens path i) = take j ?out"
    and after: "fst (extractLoop tokens path (Suc i)) = take (Suc j) ?out"
    by (auto simp: extractItems_def)
  let ?s = "extractLoop tokens path i"
  have app: "fst (extractStep tokens path i ?s) = fst ?s @ [?out ! j]"
    using j by (simp add: extractLoop_Suc [symmetric] before after take_Suc_conv_app_nth)
  from extractStep_shape [of tokens path i ?s] app t
  have ty: "tok_type (tokens ! i) = ''list_item_open''"
    and lv: "snd (?out ! j) = nearestHeadingLevel (fst ?s) + depthStep (tokens ! i) (snd ?s)"
    and il: "level (props (fst (?out ! j))) = snd (?out ! j)"
    by auto
  have "take (Suc i) tokens = take i tokens @ [tokens ! i]"
    using i by (simp add: take_Suc_conv_app_nth)
  then have d: "depthStep (tokens ! i) (snd ?s) = nestingDepth tokens i"
    using i by (simp add: extractLoop_depth depthStep_depthAfter nestingDepth_def)
  have z: "nearestHeadingLevel (take j ?out) = 0" if "filter isHeadingEntry (take j ?out) = []"
    using that by (simp add: nearestHeadingLevel_def rev_filter [symmetric])
  from i ty before after lv il d z show ?thesis
    by (intro exI [of _ i]) simp
qed

section \<open>The scenario, evaluated\<close>

lemma scenario_parse: "parsePlan 1000 scenarioMd scenarioText ''/w/PLAN.md'' = Inr scenarioPlan"
  by code_simp

theorem parsePlan_totalCount_witness:
  "parsePlan 1000 scenarioMd scenarioText ''/w/PLAN.md'' = Inr scenarioPlan \<and>
   totalCount scenarioPlan = 2 \<and>
   length (filter (\<lambda>e. item_type (props (fst e)) = Task)
             (extractItems (scenarioMd scenarioText) ''/w/PLAN.md'')) = 2"
  using parsePlan_totalCount [OF scenario_parse] scenario_parse
  by (simp add: scenarioPlan_def)

theorem parsePlan_keeps_tasks_witness:
  "parsePlan 1000 scenarioMd scenarioText ''/w/PLAN.md'' = Inr scenarioPlan \<and>
   n_pending (stateCount scenarioPlan) + n_done (stateCount scenarioPlan) +
     n_inProgress (stateCount scenarioPlan) + n_blocked (stateCount scenarioPlan) = 2 \<and>
   totalCount scenarioPlan = 2 \<and>
   map item_text (map extracted (filter isTask (itemsOf (tasks scenarioPlan)))) = [''A'', ''B'']"
  using parsePlan_keeps_tasks [OF scenario_parse] scenario_parse
  by (simp add: scenarioPlan_def scenarioSection_def isTask_def extracted_def)


theorem extract_task_level_witness:
  "(1::nat) < length (extractItems scenarioTokens ''/w/PLAN.md'') \<and>
   item_type (props (fst (extractItems scenarioTokens ''/w/PLAN.md'' ! 1))) = Task \<and>
   snd (extractItems scenarioTokens ''/w/PLAN.md'' ! 1) = 3 \<and>
   nearestHeadingLevel (take 1 (extractItems scenarioTokens ''/w/PLAN.md'')) = 2 \<and>
   fst (extractLoop scenarioTokens ''/w/PLAN.md'' 7) = take 1 (extractItems scenarioTokens ''/w/PLAN.md'') \<and>
   nestingDepth scenarioTokens 7 = 1"
proof -
  have a: "(1::nat) < length (extractItems scenarioTokens ''/w/PLAN.md'')" by code_simp
  have b: "item_type (props (fst (extractItems scenarioTokens ''/w/PLAN.md'' ! 1))) = Task" by code_simp
  have c: "snd (extractItems scenarioTokens ''/w/PLAN.md'' ! 1) = 3" by code_simp
  have h: "nearestHeadingLevel (take 1 (extractItems scenarioTokens ''/w/PLAN.md'')) = 2" by code_simp
  have f: "fst (extractLoop scenarioTokens ''/w/PLAN.md'' 7) = take 1 (extractItems scenarioTokens ''/w/PLAN.md'')"
    by code_simp
  have d: "nestingDepth scenarioTokens 7 = 1" by code_simp
  from extract_task_level [OF a b] a b c h f d show ?thesis by simp
qed

text \<open>
  Claim C8 asks that \<open>parsePlan\<close> return a plan for every input. The code does not meet
  it. The read-out of the store never fails, and a document with at most \<open>maxArgs\<close>
  checklist items always parses (\<open>parsePlan_result\<close>, \<open>parsePlan_returns\<close>). But a node
  whose child has children and more descendant tasks than one call accepts as arguments
  makes \<open>collectDescendantTasks\<close> raise \<open>RangeError\<close>, which \<open>parsePlan\<close> does not
  catch. The document is a section, a subsection and a list of open items below it;
  evaluated here with three items, it fails under a bound of two arguments and parses
  under a bound of three.
\<close>

theorem parsePlan_rangeError:
  "parsePlan 2 nestedMd nestedText ''/w/PLAN.md'' = Inl RangeError \<and>
   map (\<lambda>e. (item_text (props (fst e)), snd e)) (extractItems (nestedMd nestedText) ''/w/PLAN.md'') =
     [(''A'', 2), (''B'', 3), (''a'', 4), (''b'', 4), (''c'', 4)] \<and>
   (\<exists>plan. parsePlan 3 nestedMd nestedText ''/w/PLAN.md'' = Inr plan \<and> totalCount plan = 3)"
proof -
  have a: "parsePlan 2 nestedMd nestedText ''/w/PLAN.md'' = Inl RangeError"
    by code_simp
  have b: "map (\<lambda>e. (item_text (props (fst e)), snd e)) (extractItems (nestedMd nestedText) ''/w/PLAN.md'') =
     [(''A'', 2), (''B'', 3), (''a'', 4), (''b'', 4), (''c'', 4)]"
    by code_simp
  have c: "case parsePlan 3 nestedMd nestedText ''/w/PLAN.md'' of Inl e \<Rightarrow> False | Inr plan \<Rightarrow> totalCount plan = 3"
    by code_simp
  from c have "\<exists>plan. parsePlan 3 nestedMd nestedText ''/w/PLAN.md'' = Inr plan \<and> totalCount plan = 3"
    by (auto split: sum.splits)
  with a b show ?thesis by simp
qed

section \<open>Custom markers\<close>

lemma trim_dropWhile: "trim (dropWhile isWhiteSpace s) = trim s"
  by (simp add: trim_def)

lemma startsWith_markers:
  "startsWith s ''[!]'' \<Longrightarrow> \<not> startsWith s ''[-]''"
  "startsWith s ''[>]'' \<Longrightarrow> \<not> startsWith s ''[-]''"
  "startsWith s ''[>]'' \<Longrightarrow> \<not> startsWith s ''[!]''"
  by (cases s; cases "tl s"; auto)+

lemma detectTask_custom:
  assumes "\<not> hasTaskClass token"
  shows "startsWith (tok_content ct) ''[-]'' \<Longrightarrow>
           detectTask token ct cs = (Some InProgress, trim (drop 3 (tok_content ct)))"
    and "startsWith (tok_content ct) ''[!]'' \<Longrightarrow>
           detectTask token ct cs = (Some Blocked, trim (drop 3 (tok_content ct)))"
    and "startsWith (tok_content ct) ''[>]'' \<Longrightarrow> detectTask token ct cs = (None, [])"
  using assms by (simp_all add: detectTask_def Let_def trim_dropWhile startsWith_markers)

text \<open>
  Claim C6, amended. For a list-item token that the plugin did not mark and whose inline
  token, two positions later, has children: if the raw text begins with \<open>[-]\<close> or
  \<open>[!]\<close> and is not empty once the marker and the surrounding white space are removed,
  the extractor appends one Task, with state InProgress for \<open>[-]\<close> and Blocked for
  \<open>[!]\<close>, whose text is the raw text without the marker, trimmed. A text that begins
  with \<open>[>]\<close> is not a checklist item of this parser: nothing is appended.
\<close>

theorem custom_markers:
  assumes "i < length tokens"
    and "tok_type (tokens ! i) = ''list_item_open''"
    and "\<not> hasTaskClass (tokens ! i)"
    and "tokenAt tokens (i + 2) = Some ct"
    and "tok_type ct = ''inline''"
    and "tok_children ct = Some cs"
  shows "(startsWith (tok_content ct) ''[-]'' \<and> trim (drop 3 (tok_content ct)) \<noteq> [] \<longrightarrow>
            (\<exists>e. fst (extractLoop tokens path (Suc i)) = fst (extractLoop tokens path i) @ [e] \<and>
                 item_type (props (fst e)) = Task \<and> state (props (fst e)) = Some InProgress \<and>
                 item_text (props (fst e)) = trim (drop 3 (tok_content ct)))) \<and>
         (startsWith (tok_content ct) ''[!]'' \<and> trim (drop 3 (tok_content ct)) \<noteq> [] \<longrightarrow>
            (\<exists>e. fst (extractLoop tokens path (Suc i)) = fst (extractLoop tokens path i) @ [e] \<and>
                 item_type (props (fst e)) = Task \<and> state (props (fst e)) = Some Blocked \<and>
                 item_text (props (fst e)) = trim (drop 3 (tok_content ct)))) \<and>
         (startsWith (tok_content ct) ''[>]'' \<longrightarrow>
            fst (extractLoop tokens path (Suc i)) = fst (extractLoop tokens path i))"
proof -
  have h: "headingStep tokens path i flat = flat" for flat
    using assms(2) by (simp add: headingStep_def)
  show ?thesis
    using assms detectTask_custom [OF assms(3), of ct cs]
    by (auto simp: extractLoop_Suc extractStep_def taskStep_def Let_def h)
qed

text \<open>
  In the list \<open>[!] Blocked thing\<close>, \<open>[>] Ship it\<close>, \<open>[-]\<close> the second item is a
  list item the plugin did not mark and its raw text begins with \<open>[>]\<close>, yet handling
  its token appends nothing, and so does the third item, whose text is empty once the
  marker is removed: the output holds the Blocked task alone.
\<close>

theorem custom_markers_counterexample:
  "tok_type (customTokens ! 6) = ''list_item_open'' \<and>
   \<not> hasTaskClass (customTokens ! 6) \<and>
   tokenAt customTokens 8 = Some (inlineTok ''[>] Ship it'' 1 [textChild ''[>] Ship it'']) \<and>
   startsWith ''[>] Ship it'' ''[>]'' \<and>
   fst (extractLoop customTokens ''/w/PLAN.md'' 7) = fst (extractLoop customTokens ''/w/PLAN.md'' 6) \<and>
   tokenAt customTokens 13 = Some (inlineTok ''[-]'' 2 [textChild ''[-]'']) \<and>
   fst (extractLoop customTokens ''/w/PLAN.md'' 12) = fst (extractLoop customTokens ''/w/PLAN.md'' 11) \<and>
   map (\<lambda>e. (item_text (props (fst e)), state (props (fst e)))) (extractItems customTokens ''/w/PLAN.md'') =
     [(''Blocked thing'', Some Blocked)]"
  by code_simp

theorem custom_markers_witness:
  "(1::nat) < length customTokens \<and>
   tok_type (customTokens ! 1) = ''list_item_open'' \<and>
   \<not> hasTaskClass (customTokens ! 1) \<and>
   tokenAt customTokens (1 + 2) = Some (inlineTok ''[!] Blocked thing'' 0 [textChild ''[!] Blocked thing'']) \<and>
   startsWith ''[!] Blocked thing'' ''[!]'' \<and>
   trim (drop 3 ''[!] Blocked thing'') = ''Blocked thing'' \<and>
   (\<exists>e. fst (extractLoop customTokens ''/w/PLAN.md'' (Suc 1)) =
           fst (extractLoop customTokens ''/w/PLAN.md'' 1) @ [e] \<and>
        item_type (props (fst e)) = Task \<and> state (props (fst e)) = Some Blocked \<and>
        item_text (props (fst e)) = ''Blocked thing'')"
proof -
  let ?ct = "inlineTok ''[!] Blocked thing'' 0 [textChild ''[!] Blocked thing'']"
  have a1: "(1::nat) < length customTokens" by code_simp
  have a2: "tok_type (customTokens ! 1) = ''list_item_open''" by code_simp
  have a3: "\<not> hasTaskClass (customTokens ! 1)" by code_simp
  have a4: "tokenAt customTokens (1 + 2) = Some ?ct" by code_simp
  have a5: "tok_type ?ct = ''inline''" by code_simp
  have a6: "tok_children ?ct = Some [textChild ''[!] Blocked thing'']" by code_simp
  have c: "tok_content ?ct = ''[!] Blocked thing''" by code_simp
  have s: "startsWith ''[!] Blocked thing'' ''[!]''" by code_simp
  have t: "trim (drop 3 ''[!] Blocked thing'') = ''Blocked thing''" by code_simp
  from custom_markers [OF a1 a2 a3 a4 a5 a6, of "''/w/PLAN.md''"] a1 a2 a3 a4 s t
  show ?thesis by (simp add: c)
qed

end
